theory Spec2Isabelle
  imports Main
begin

section \<open>DNS spoofing detector: data model\<close>

text \<open>
  The detector of \<^verbatim>\<open>DNS_Spoofing_and_Detection_Tool.ipynb\<close> is the class
  \<^verbatim>\<open>DNSSpoofDetector\<close>. Its methods mutate the object in place; here every method takes
  the object and returns it, together with what it wrote to standard output and which
  external services it called.
\<close>

subsection \<open>Values read from a packet\<close>

text \<open>
  \<^verbatim>\<open>packet[DNSRR].rdata\<close> is whatever the packet library decoded for the first answer
  record: a text string for an A or AAAA record, a byte string for a name-valued or unknown
  record type, a list of byte strings for a TXT record. The detector compares these values
  with Python's \<^verbatim>\<open>!=\<close> (values of different kinds are never equal) and tests one of them
  for truth (an empty string, byte string or list is false).
\<close>

datatype rdata = PyStr string | PyBytes string | PyList "string list"

fun truthy :: "rdata \<Rightarrow> bool" where
  "truthy (PyStr s) = (s \<noteq> [])"
| "truthy (PyBytes b) = (b \<noteq> [])"
| "truthy (PyList l) = (l \<noteq> [])"

text \<open>
  \<^verbatim>\<open>packet[DNSQR].qname\<close> is a byte string, which \<^verbatim>\<open>.decode()\<close> turns into text or
  rejects with \<^verbatim>\<open>UnicodeDecodeError\<close>. The bytes are kept by the outcome of decoding.
\<close>

datatype qname = Utf8 string | NotUtf8

datatype error = IndexError | UnicodeDecodeError

fun decode :: "qname \<Rightarrow> error + string" where
  "decode (Utf8 s) = Inr s"
| "decode NotUtf8 = Inl UnicodeDecodeError"

text \<open>
  A captured packet, as far as \<^verbatim>\<open>dns_detect\<close> reads it: the name of its first question
  record and the data of its first answer record, each absent when the packet has no such
  layer.
\<close>

record packet =
  dnsqr :: "qname option"
  dnsrr :: "rdata option"

subsection \<open>The detector object\<close>

record detector =
  interface :: string
  cache :: "string \<rightharpoonup> rdata"
  suspicious_responses :: "(string \<times> rdata \<times> rdata) list"
  stop_detecting :: bool
  nameservers :: "string list"

type_synonym exn = string

text \<open>The lines the detector prints, by their fields rather than their layout.\<close>

datatype line =
    Starting string
  | PermissionDenied
  | Stopping
  | AnErrorOccurred error
  | PotentialSpoofing string
  | CachedIP rdata
  | ReceivedIP rdata
  | VerifyingSuspicious
  | ConfirmedSpoofing string
  | RealIP string
  | SpoofedIP rdata
  | DoesNotExist string
  | ErrorResolving string exn
  | TracingActual string
  | DomainRegistrar "string option"
  | NameServers "string list"
  | WhoisUnavailable exn
  | RealASN "string option"
  | RealASNDescription "string option"
  | RealUnavailable exn
  | SpoofedASN "string option"
  | SpoofedASNDescription "string option"
  | SpoofedUnavailable exn

definition init :: "string \<Rightarrow> detector" where
  "init iface =
     \<lparr>interface = iface, cache = Map.empty, suspicious_responses = [],
      stop_detecting = False, nameservers = [''8.8.8.8'', ''8.8.4.4'']\<rparr>"

section \<open>The capture phase\<close>

text \<open>
  \<^verbatim>\<open>dns_detect\<close>: a packet without an answer record is ignored. Otherwise the queried name
  is read (a missing question layer raises \<^verbatim>\<open>IndexError\<close>, undecodable bytes raise
  \<^verbatim>\<open>UnicodeDecodeError\<close>, both before anything is written), and the answer is compared
  with the cache or stored in it.
\<close>

definition dns_detect :: "detector \<Rightarrow> packet \<Rightarrow> error + (detector \<times> line list)" where
  "dns_detect self p =
     (case dnsrr p of
        None \<Rightarrow> Inr (self, [])
      | Some rdata \<Rightarrow>
          (case dnsqr p of
             None \<Rightarrow> Inl IndexError
           | Some q \<Rightarrow>
               (case decode q of
                  Inl e \<Rightarrow> Inl e
                | Inr name \<Rightarrow>
                    (case cache self name of
                       Some cached \<Rightarrow>
                         if cached \<noteq> rdata then
                           Inr (self\<lparr>suspicious_responses :=
                                        suspicious_responses self @ [(name, cached, rdata)]\<rparr>,
                                [PotentialSpoofing name, CachedIP cached, ReceivedIP rdata])
                         else Inr (self, [])
                     | None \<Rightarrow> Inr (self\<lparr>cache := (cache self)(name \<mapsto> rdata)\<rparr>, [])))))"

definition check_stop :: "detector \<Rightarrow> packet \<Rightarrow> bool" where
  "check_stop self p = stop_detecting self"

definition stop_detection :: "detector \<Rightarrow> detector" where
  "stop_detection self = self\<lparr>stop_detecting := True\<rparr>"

text \<open>
  The capture loop \<^verbatim>\<open>sniff(prn=self.dns_detect, stop_filter=self.check_stop)\<close> over the
  packets the interface delivers: each packet is handed to \<^verbatim>\<open>dns_detect\<close>, then the stop
  predicate is asked. An exception of \<^verbatim>\<open>dns_detect\<close> ends the loop; the object keeps what
  was written before. The loop ends by that exception, by the stop predicate, or when
  no further packet is delivered.
\<close>

datatype ending = Raised error | Stopped | Exhausted

fun sniff :: "detector \<Rightarrow> packet list \<Rightarrow> detector \<times> line list \<times> ending" where
  "sniff self [] = (self, [], Exhausted)"
| "sniff self (p # ps) =
     (case dns_detect self p of
        Inl e \<Rightarrow> (self, [], Raised e)
      | Inr (self', out) \<Rightarrow>
          if check_stop self' p then (self', out, Stopped)
          else (case sniff self' ps of (self'', out', fin) \<Rightarrow> (self'', out @ out', fin)))"

text \<open>
  \<^verbatim>\<open>start_detecting\<close>: the capture either cannot be opened (\<^verbatim>\<open>PermissionError\<close>) or
  delivers packets; the flag says whether the delivery was cut by a
  \<^verbatim>\<open>KeyboardInterrupt\<close> that reached this method. Every exception is caught and printed.
\<close>

datatype capture = Refused | Delivers "packet list" bool

definition start_detecting :: "detector \<Rightarrow> capture \<Rightarrow> detector \<times> line list" where
  "start_detecting self c =
     (case c of
        Refused \<Rightarrow> (self, [Starting (interface self), PermissionDenied])
      | Delivers ps interrupted \<Rightarrow>
          (case sniff self ps of
             (self', out, fin) \<Rightarrow>
               (self', Starting (interface self) # out @
                  (case fin of
                     Raised e \<Rightarrow> [AnErrorOccurred e]
                   | Stopped \<Rightarrow> []
                   | Exhausted \<Rightarrow> if interrupted then [Stopping] else []))))"

text \<open>A response record: a packet with a decodable queried name and an answer.\<close>

definition response :: "string \<times> rdata \<Rightarrow> packet" where
  "response r = \<lparr>dnsqr = Some (Utf8 (fst r)), dnsrr = Some (snd r)\<rparr>"

text \<open>
  The detector after a capture session that delivered the given response records and was
  then interrupted, as in the notebook's last cell.
\<close>

definition session :: "string \<Rightarrow> (string \<times> rdata) list \<Rightarrow> detector" where
  "session iface rs = fst (start_detecting (init iface) (Delivers (map response rs) True))"

text \<open>
  What \<^verbatim>\<open>dns_detect\<close> leaves of the object when it is given a response record.
\<close>

definition observed :: "detector \<Rightarrow> string \<times> rdata \<Rightarrow> detector" where
  "observed self r =
     (case dns_detect self (response r) of Inr (self', _) \<Rightarrow> self' | Inl _ \<Rightarrow> self)"

section \<open>The verification phase\<close>

subsection \<open>External services\<close>

text \<open>
  The trusted resolver, the registrar lookup and the address registry lookup are library
  calls over the network. Each is a parameter here: what the call returns, or the
  exception it raises.
  \<^item> \<^verbatim>\<open>self.resolver.resolve(domain, 'A')[0].to_text()\<close>: the text of the first address
    record, \<^verbatim>\<open>dns.resolver.NXDOMAIN\<close>, or another exception;
  \<^item> \<^verbatim>\<open>whois.whois(domain)\<close>: an entry whose \<^verbatim>\<open>registrar\<close> and \<^verbatim>\<open>name_servers\<close>
    are \<^verbatim>\<open>None\<close> when the registry did not give them, or an exception;
    \<^verbatim>\<open>name_servers\<close> is kept as the items \<^verbatim>\<open>', '.join\<close> runs over (the entries of a
    list, the characters of a single string);
  \<^item> \<^verbatim>\<open>IPWhois(ip).lookup_rdap()\<close>: a dictionary read with \<^verbatim>\<open>.get\<close>, or an exception
    (also when the argument is not an address).
\<close>

datatype resolution = Answer string | NXDOMAIN | ResolverError exn

record whois_info =
  registrar :: "string option"
  name_servers :: "string list option"

record ip_info =
  asn :: "string option"
  asn_description :: "string option"

record services =
  resolve :: "string list \<Rightarrow> string \<Rightarrow> resolution"
  whois :: "string \<Rightarrow> exn + whois_info"
  lookup_rdap :: "rdata \<Rightarrow> exn + ip_info"

text \<open>What a verification does that can be seen from outside: its calls and its lines.\<close>

datatype event = Resolve string | Whois string | Rdap rdata | Print line

fun is_call :: "event \<Rightarrow> bool" where
  "is_call (Print l) = False"
| "is_call e = True"

definition calls :: "event list \<Rightarrow> event list" where
  "calls evs = filter is_call evs"

subsection \<open>Attribution\<close>

text \<open>
  \<^verbatim>\<open>trace_actual_dns\<close>: three lookups, each in its own \<^verbatim>\<open>try\<close> whose handler prints
  the exception. Joining the name servers is inside the first \<^verbatim>\<open>try\<close>, after the
  registrar line: when the entry has no name servers the join raises and the handler runs.
\<close>

definition trace_actual_dns ::
  "services \<Rightarrow> detector \<Rightarrow> string \<Rightarrow> string \<Rightarrow> rdata \<Rightarrow> detector \<times> event list" where
  "trace_actual_dns srv self domain real_ip spoofed_ip =
     (self,
      [Print (TracingActual domain)] @
      (Whois domain #
         (case whois srv domain of
            Inl e \<Rightarrow> [Print (WhoisUnavailable e)]
          | Inr domain_info \<Rightarrow>
              Print (DomainRegistrar (registrar domain_info)) #
                (case name_servers domain_info of
                   None \<Rightarrow> [Print (WhoisUnavailable ''can only join an iterable'')]
                 | Some ns \<Rightarrow> [Print (NameServers ns)]))) @
      (Rdap (PyStr real_ip) #
         (case lookup_rdap srv (PyStr real_ip) of
            Inl e \<Rightarrow> [Print (RealUnavailable e)]
          | Inr ip_info \<Rightarrow>
              [Print (RealASN (asn ip_info)),
               Print (RealASNDescription (asn_description ip_info))])) @
      (Rdap spoofed_ip #
         (case lookup_rdap srv spoofed_ip of
            Inl e \<Rightarrow> [Print (SpoofedUnavailable e)]
          | Inr spoofed_ip_info \<Rightarrow>
              [Print (SpoofedASN (asn spoofed_ip_info)),
               Print (SpoofedASNDescription (asn_description spoofed_ip_info))])))"

subsection \<open>Verification of one name\<close>

text \<open>
  \<^verbatim>\<open>verify_dns\<close>: the whole body is inside \<^verbatim>\<open>try\<close>; \<^verbatim>\<open>NXDOMAIN\<close> and every other
  exception are caught, printed and answered with \<^verbatim>\<open>None\<close>. The test
  \<^verbatim>\<open>cached_ip and real_ip != cached_ip\<close> is false when the cache has no entry
  (\<^verbatim>\<open>cache.get\<close> gives \<^verbatim>\<open>None\<close>) and when the cached value is empty.
\<close>

definition verify_dns ::
  "services \<Rightarrow> detector \<Rightarrow> string \<Rightarrow> detector \<times> string option \<times> event list" where
  "verify_dns srv self domain =
     (case resolve srv (nameservers self) domain of
        Answer real_ip \<Rightarrow>
          (case cache self domain of
             Some cached_ip \<Rightarrow>
               if truthy cached_ip \<and> PyStr real_ip \<noteq> cached_ip then
                 (case trace_actual_dns srv self domain real_ip cached_ip of
                    (self', evs) \<Rightarrow>
                      (self', Some real_ip,
                       [Resolve domain, Print (ConfirmedSpoofing domain),
                        Print (RealIP real_ip), Print (SpoofedIP cached_ip)] @ evs))
               else (self, Some real_ip, [Resolve domain])
           | None \<Rightarrow> (self, Some real_ip, [Resolve domain]))
      | NXDOMAIN \<Rightarrow> (self, None, [Resolve domain, Print (DoesNotExist domain)])
      | ResolverError e \<Rightarrow> (self, None, [Resolve domain, Print (ErrorResolving domain e)]))"

subsection \<open>Verification of the whole log\<close>

text \<open>
  \<^verbatim>\<open>verify_suspicious_responses\<close> submits \<^verbatim>\<open>verify_dns\<close> to a
  \<^verbatim>\<open>ThreadPoolExecutor(max_workers=5)\<close> once for each entry of the list comprehension
  over \<^verbatim>\<open>self.suspicious_responses\<close>, and waits for all the futures.

  The executor is the standard library's. A submitted task waits in a queue; a worker takes
  the task at the head of the queue, and a task is taken only while fewer than
  \<^verbatim>\<open>max_workers\<close> tasks are being executed; a task that ends fills its future. Which worker
  moves next is not in the program's hands: it is a parameter here, the schedule, a list of
  moves. A move that is not possible (nothing queued, all workers busy, no such worker)
  changes nothing. The task submitted at position \<open>i\<close> sees the external services as
  \<open>world i\<close>, since two calls of a network service need not agree. A task is executed
  in one move: \<^verbatim>\<open>verify_dns\<close> reads the object and writes nothing, so the moves of other
  workers in between would not change what it does.
\<close>

definition max_workers :: nat where
  "max_workers = 5"

record future =
  task_domain :: string
  task_result :: "string option"
  task_events :: "event list"

text \<open>
  The pool while the tasks run: the object the workers share, the tasks still queued and
  the tasks being executed (each with its position of submission), and one future for each
  submitted task, empty until the task has ended.
\<close>

record pool =
  owner :: detector
  queued :: "(nat \<times> string) list"
  running :: "(nat \<times> string) list"
  slots :: "future option list"

datatype move = Start | Finish nat

definition submit_all :: "detector \<Rightarrow> string list \<Rightarrow> pool" where
  "submit_all self tasks =
     \<lparr>owner = self, queued = enumerate 0 tasks, running = [],
      slots = map (\<lambda>domain. None) tasks\<rparr>"

fun step :: "(nat \<Rightarrow> services) \<Rightarrow> pool \<Rightarrow> move \<Rightarrow> pool" where
  "step world p Start =
     (case queued p of
        [] \<Rightarrow> p
      | t # rest \<Rightarrow>
          if length (running p) < max_workers
          then p\<lparr>queued := rest, running := running p @ [t]\<rparr>
          else p)"
| "step world p (Finish k) =
     (if k < length (running p) then
        (case running p ! k of
           (i, domain) \<Rightarrow>
             (case verify_dns (world i) (owner p) domain of
                (self', real_ip, evs) \<Rightarrow>
                  p\<lparr>owner := self',
                    running := take k (running p) @ drop (Suc k) (running p),
                    slots := (slots p)
                      [i := Some \<lparr>task_domain = domain, task_result = real_ip,
                                  task_events = evs\<rparr>]\<rparr>))
      else p)"

text \<open>The pool after the moves of a schedule, all tasks having been submitted.\<close>

definition pool_after :: "(nat \<Rightarrow> services) \<Rightarrow> move list \<Rightarrow> detector \<Rightarrow> pool" where
  "pool_after world sched self =
     foldl (step world)
       (submit_all self (map (\<lambda>(domain, _, _). domain) (suspicious_responses self))) sched"

text \<open>
  \<^verbatim>\<open>concurrent.futures.wait(futures)\<close> returns when every future is filled. Under a
  schedule that leaves a future empty the call has not returned: the value is \<open>None\<close>.
\<close>

definition verify_suspicious_responses ::
  "(nat \<Rightarrow> services) \<Rightarrow> move list \<Rightarrow> detector \<Rightarrow> (detector \<times> line list \<times> future list) option" where
  "verify_suspicious_responses world sched self =
     (let p = pool_after world sched self in
      case those (slots p) of
        None \<Rightarrow> None
      | Some futures \<Rightarrow> Some (owner p, [VerifyingSuspicious], futures))"

text \<open>
  The schedule of one worker at a time: each task is taken and ended before the next.
\<close>

definition one_by_one :: "nat \<Rightarrow> move list" where
  "one_by_one n = concat (replicate n [Start, Finish 0])"

text \<open>
  What holds of the pool for the tasks \<open>tasks\<close> of the object \<open>self\<close> after any
  moves: the object is still \<open>self\<close>; there is a future for every task; no position is
  queued or executed twice; a queued or executed task is a submitted one whose future is
  empty; an empty future belongs to a task queued or executed; a filled future holds what
  \<^verbatim>\<open>verify_dns\<close> returned for its task.
\<close>

definition pool_ok :: "(nat \<Rightarrow> services) \<Rightarrow> detector \<Rightarrow> string list \<Rightarrow> pool \<Rightarrow> bool" where
  "pool_ok world self tasks p \<longleftrightarrow>
     owner p = self \<and>
     length (slots p) = length tasks \<and>
     length (running p) \<le> max_workers \<and>
     distinct (map fst (queued p @ running p)) \<and>
     (\<forall>i d. (i, d) \<in> set (queued p @ running p) \<longrightarrow>
        i < length tasks \<and> d = tasks ! i \<and> slots p ! i = None) \<and>
     (\<forall>j < length tasks. slots p ! j = None \<longrightarrow> j \<in> fst ` set (queued p @ running p)) \<and>
     (\<forall>j < length tasks. \<forall>f. slots p ! j = Some f \<longrightarrow>
        f = \<lparr>task_domain = tasks ! j,
             task_result = fst (snd (verify_dns (world j) self (tasks ! j))),
             task_events = snd (snd (verify_dns (world j) self (tasks ! j)))\<rparr>)"

subsection \<open>Fixed services for concrete runs\<close>

text \<open>
  Services that give the same answer to every query, and a world in which every task sees
  the same services.
\<close>

definition constant_services :: "resolution \<Rightarrow> exn + whois_info \<Rightarrow> exn + ip_info \<Rightarrow> services" where
  "constant_services r w i = \<lparr>resolve = (\<lambda>ns d. r), whois = (\<lambda>d. w), lookup_rdap = (\<lambda>ip. i)\<rparr>"

definition every_task :: "services \<Rightarrow> nat \<Rightarrow> services" where
  "every_task srv i = srv"

text \<open>The names, records and services of the concrete runs below.\<close>

abbreviation foo_example :: string where
  "foo_example \<equiv> ''foo.example.''"

abbreviation bar_example :: string where
  "bar_example \<equiv> ''bar.example.''"

abbreviation two_answers :: "(string \<times> rdata) list" where
  "two_answers \<equiv> [(foo_example, PyStr ''1.1.1.1''), (foo_example, PyStr ''2.2.2.2'')]"

abbreviation empty_then_answer :: "(string \<times> rdata) list" where
  "empty_then_answer \<equiv> [(foo_example, PyBytes []), (foo_example, PyStr ''2.2.2.2'')]"

abbreviation three_answers :: "(string \<times> rdata) list" where
  "three_answers \<equiv>
     [(foo_example, PyStr ''1.1.1.1''), (foo_example, PyStr ''2.2.2.2''),
      (foo_example, PyStr ''2.2.2.2'')]"

abbreviation two_names :: "(string \<times> rdata) list" where
  "two_names \<equiv>
     [(foo_example, PyStr ''1.1.1.1''), (bar_example, PyStr ''5.5.5.5''),
      (foo_example, PyStr ''2.2.2.2''), (bar_example, PyStr ''6.6.6.6'')]"

abbreviation unreachable :: "string \<Rightarrow> services" where
  "unreachable real \<equiv> constant_services (Answer real) (Inl ''timed out'') (Inl ''timed out'')"

abbreviation first_fails :: "resolution \<Rightarrow> nat \<Rightarrow> services" where
  "first_fails r \<equiv>
     (\<lambda>i. if i = 0 then constant_services r (Inl ''timed out'') (Inl ''timed out'')
          else unreachable ''5.5.5.5'')"

abbreviation registry_down :: services where
  "registry_down \<equiv>
     \<lparr>resolve = (\<lambda>ns d. Answer ''3.3.3.3''),
      whois = (\<lambda>d. Inl ''timed out''),
      lookup_rdap = (\<lambda>ip. if ip = PyStr ''3.3.3.3''
                           then Inr \<lparr>asn = Some ''15169'', asn_description = Some ''GOOGLE''\<rparr>
                           else Inl ''timed out'')\<rparr>"

abbreviation rdap_down :: services where
  "rdap_down \<equiv>
     \<lparr>resolve = (\<lambda>ns d. Answer ''3.3.3.3''),
      whois = (\<lambda>d. Inr \<lparr>registrar = Some ''Example Registrar'', name_servers = None\<rparr>),
      lookup_rdap = (\<lambda>ip. if ip = PyStr ''3.3.3.3''
                           then Inl ''timed out''
                           else Inr \<lparr>asn = Some ''13335'', asn_description = None\<rparr>)\<rparr>"

abbreviation registry_up :: services where
  "registry_up \<equiv>
     constant_services (Answer ''3.3.3.3'')
       (Inr \<lparr>registrar = Some ''Example Registrar'',
             name_servers = Some [''ns1.example.'', ''ns2.example.'']\<rparr>)
       (Inl ''timed out'')"

abbreviation six_divergent :: "(string \<times> rdata) list" where
  "six_divergent \<equiv> (foo_example, PyStr ''1.1.1.1'') # replicate 6 (foo_example, PyStr ''2.2.2.2'')"

section \<open>Properties of the capture phase\<close>

subsection \<open>Response records, one at a time\<close>

lemma dns_detect_response:
  "dns_detect self (response (n, a)) =
     (case cache self n of
        Some cached \<Rightarrow>
          if cached \<noteq> a then
            Inr (self\<lparr>suspicious_responses := suspicious_responses self @ [(n, cached, a)]\<rparr>,
                 [PotentialSpoofing n, CachedIP cached, ReceivedIP a])
          else Inr (self, [])
      | None \<Rightarrow> Inr (self\<lparr>cache := (cache self)(n \<mapsto> a)\<rparr>, []))"
  by (simp add: dns_detect_def response_def)

lemma observed_eq:
  "observed self (n, a) =
     (case cache self n of
        Some cached \<Rightarrow>
          if cached \<noteq> a then
            self\<lparr>suspicious_responses := suspicious_responses self @ [(n, cached, a)]\<rparr>
          else self
      | None \<Rightarrow> self\<lparr>cache := (cache self)(n \<mapsto> a)\<rparr>)"
  by (simp add: observed_def dns_detect_response split: option.splits)

lemma observed_stop: "stop_detecting (observed self r) = stop_detecting self"
  by (cases r) (simp add: observed_eq split: option.splits)

lemma sniff_response_Cons:
  assumes "\<not> stop_detecting self"
  shows "fst (sniff self (response r # ps)) = fst (sniff (observed self r) ps)"
    and "snd (snd (sniff self (response r # ps))) = snd (snd (sniff (observed self r) ps))"
  using assms
  by (cases r; simp add: observed_eq dns_detect_response check_stop_def split_beta
      split: option.splits)+

lemma sniff_responses_stop:
  "\<not> stop_detecting self \<Longrightarrow> \<not> stop_detecting (fst (sniff self (map response rs)))"
  by (induction rs arbitrary: self)
     (simp_all add: sniff_response_Cons observed_stop del: sniff.simps(2))

lemma sniff_responses_append:
  "\<not> stop_detecting self \<Longrightarrow>
   fst (sniff self (map response (rs @ later))) =
   fst (sniff (fst (sniff self (map response rs))) (map response later))"
  by (induction rs arbitrary: self)
     (simp_all add: sniff_response_Cons observed_stop del: sniff.simps(2))

lemma sniff_responses_cache:
  "\<not> stop_detecting self \<Longrightarrow>
   cache (fst (sniff self (map response rs))) n =
     (case cache self n of Some c \<Rightarrow> Some c | None \<Rightarrow> map_of rs n)"
proof (induction rs arbitrary: self)
  case Nil
  then show ?case by (simp split: option.splits)
next
  case (Cons r rs)
  obtain m a where r: "r = (m, a)" by (cases r)
  from Cons.prems have "\<not> stop_detecting (observed self r)"
    by (simp add: observed_stop)
  from Cons.IH [OF this] Cons.prems show ?case
    by (simp add: sniff_response_Cons del: sniff.simps(2))
       (simp add: r observed_eq split: option.splits)
qed

lemma session_eq: "session iface rs = fst (sniff (init iface) (map response rs))"
  by (simp add: session_def start_detecting_def split: prod.splits)

lemma init_running: "\<not> stop_detecting (init iface)"
  by (simp add: init_def)

lemma session_Nil: "session iface [] = init iface"
  by (simp add: session_eq)

lemma session_cache: "cache (session iface rs) = map_of rs"
  by (rule ext) (simp add: session_eq sniff_responses_cache init_running, simp add: init_def)

lemma session_snoc: "session iface (rs @ [r]) = observed (session iface rs) r"
proof -
  have run: "\<not> stop_detecting (session iface rs)"
    by (simp add: session_eq sniff_responses_stop init_running)
  have "session iface (rs @ [r]) = fst (sniff (session iface rs) (map response [r]))"
    by (simp only: session_eq sniff_responses_append [OF init_running])
  then show ?thesis using run
    by (simp add: sniff_response_Cons del: sniff.simps(2))
qed

lemma session_single_log:
  "suspicious_responses (session iface [r]) = []"
  using session_snoc [of iface "[]" r]
  by (cases r) (simp add: session_Nil observed_eq init_def)

subsection \<open>Every suspicious response names a cached address\<close>

text \<open>
  Whatever packets a capture delivers, each entry of the list of suspicious responses
  carries the address the cache holds for its name, and an observed address that differs
  from it.
\<close>

lemma dns_detect_cases:
  assumes step: "dns_detect self p = Inr (self', out)"
  obtains (ignored) "self' = self"
    | (stored) m a where "cache self m = None" and "self' = self\<lparr>cache := (cache self)(m \<mapsto> a)\<rparr>"
    | (flagged) m cached a where "cache self m = Some cached" and "cached \<noteq> a"
        and "self' = self\<lparr>suspicious_responses := suspicious_responses self @ [(m, cached, a)]\<rparr>"
proof (cases "dnsrr p")
  case None
  with step have "self' = self" by (simp add: dns_detect_def)
  then show ?thesis by (rule ignored)
next
  case (Some a)
  note rr = this
  show ?thesis
  proof (cases "dnsqr p")
    case None
    with step rr show ?thesis by (simp add: dns_detect_def)
  next
    case (Some q)
    note qr = this
    show ?thesis
    proof (cases "decode q")
      case (Inl e)
      with step rr qr show ?thesis by (simp add: dns_detect_def)
    next
      case (Inr m)
      show ?thesis
      proof (cases "cache self m")
        case None
        with step rr qr Inr have "self' = self\<lparr>cache := (cache self)(m \<mapsto> a)\<rparr>"
          by (simp add: dns_detect_def)
        with None show ?thesis by (rule stored)
      next
        case (Some cached)
        show ?thesis
        proof (cases "cached = a")
          case True
          with step rr qr Inr Some have "self' = self" by (simp add: dns_detect_def)
          then show ?thesis by (rule ignored)
        next
          case False
          with step rr qr Inr Some
          have "self' = self\<lparr>suspicious_responses := suspicious_responses self @ [(m, cached, a)]\<rparr>"
            by (simp add: dns_detect_def)
          with Some False show ?thesis by (rule flagged)
        qed
      qed
    qed
  qed
qed

lemma dns_detect_log_cached:
  assumes step: "dns_detect self p = Inr (self', out)"
    and inv: "\<forall>n c obs. (n, c, obs) \<in> set (suspicious_responses self) \<longrightarrow> cache self n = Some c \<and> c \<noteq> obs"
  shows "\<forall>n c obs. (n, c, obs) \<in> set (suspicious_responses self') \<longrightarrow> cache self' n = Some c \<and> c \<noteq> obs"
proof (intro allI impI)
  fix n c obs
  assume mem: "(n, c, obs) \<in> set (suspicious_responses self')"
  from step show "cache self' n = Some c \<and> c \<noteq> obs"
  proof (cases rule: dns_detect_cases)
    case ignored
    from mem inv show ?thesis unfolding ignored by blast
  next
    case (stored m a)
    from mem have "(n, c, obs) \<in> set (suspicious_responses self)"
      unfolding stored(2) by simp
    with inv have old: "cache self n = Some c \<and> c \<noteq> obs" by blast
    with stored(1) have "n \<noteq> m" by auto
    with old show ?thesis unfolding stored(2) by simp
  next
    case (flagged m cached a)
    from mem have "(n, c, obs) \<in> set (suspicious_responses self) \<or> (n, c, obs) = (m, cached, a)"
      unfolding flagged(3) by auto
    then show ?thesis
    proof
      assume "(n, c, obs) \<in> set (suspicious_responses self)"
      with inv have "cache self n = Some c \<and> c \<noteq> obs" by blast
      then show ?thesis unfolding flagged(3) by simp
    next
      assume "(n, c, obs) = (m, cached, a)"
      with flagged(1,2) show ?thesis unfolding flagged(3) by simp
    qed
  qed
qed

lemma sniff_log_cached:
  "\<forall>n c obs. (n, c, obs) \<in> set (suspicious_responses self) \<longrightarrow> cache self n = Some c \<and> c \<noteq> obs \<Longrightarrow>
   \<forall>n c obs. (n, c, obs) \<in> set (suspicious_responses (fst (sniff self ps))) \<longrightarrow>
      cache (fst (sniff self ps)) n = Some c \<and> c \<noteq> obs"
proof (induction ps arbitrary: self)
  case Nil
  then show ?case by simp
next
  case (Cons p ps)
  show ?case
  proof (cases "dns_detect self p")
    case (Inl e)
    with Cons.prems show ?thesis by simp
  next
    case (Inr r)
    obtain self' out where r: "r = (self', out)" by (cases r)
    from dns_detect_log_cached [OF Inr [unfolded r] Cons.prems]
    have inv: "\<forall>n c obs. (n, c, obs) \<in> set (suspicious_responses self') \<longrightarrow>
                 cache self' n = Some c \<and> c \<noteq> obs" .
    show ?thesis
    proof (cases "check_stop self' p")
      case True
      with inv Inr r show ?thesis by simp
    next
      case False
      with Cons.IH [OF inv] Inr r show ?thesis by (simp add: split_beta)
    qed
  qed
qed

lemma start_detecting_log_cached:
  assumes "(n, c, obs) \<in> set (suspicious_responses (fst (start_detecting (init iface) cap)))"
  shows "cache (fst (start_detecting (init iface) cap)) n = Some c \<and> c \<noteq> obs"
proof (cases cap)
  case Refused
  with assms show ?thesis by (simp add: start_detecting_def init_def)
next
  case (Delivers ps interrupted)
  have "\<forall>n c obs. (n, c, obs) \<in> set (suspicious_responses (init iface)) \<longrightarrow>
          cache (init iface) n = Some c \<and> c \<noteq> obs"
    by (simp add: init_def)
  from sniff_log_cached [OF this, of ps] assms Delivers show ?thesis
    by (auto simp: start_detecting_def split_beta)
qed

subsection \<open>Concrete sessions\<close>


lemma session_capture:
  "session iface rs = fst (start_detecting (init iface) (Delivers (map response rs) True))"
  by (simp add: session_def)

lemma session_log_pair:
  "suspicious_responses (session iface [(n, a), (n, b)]) = (if a \<noteq> b then [(n, a, b)] else [])"
  using session_snoc [of iface "[(n, a)]" "(n, b)"]
  by (simp add: observed_eq session_cache session_single_log)

lemma session_log_triple:
  "a \<noteq> b \<Longrightarrow>
   suspicious_responses (session iface [(n, a), (n, b), (n, b)]) = [(n, a, b), (n, a, b)]"
  using session_snoc [of iface "[(n, a), (n, b)]" "(n, b)"]
  by (simp add: observed_eq session_cache session_log_pair)

lemma two_names_log:
  "suspicious_responses (session ''Wi-Fi'' two_names) =
     [(foo_example, PyStr ''1.1.1.1'', PyStr ''2.2.2.2''), (bar_example, PyStr ''5.5.5.5'', PyStr ''6.6.6.6'')]"
proof -
  have two: "suspicious_responses
      (session ''Wi-Fi'' [(foo_example, PyStr ''1.1.1.1''), (bar_example, PyStr ''5.5.5.5'')]) = []"
    using session_snoc [of "''Wi-Fi''" "[(foo_example, PyStr ''1.1.1.1'')]" "(bar_example, PyStr ''5.5.5.5'')"]
    by (simp add: observed_eq session_cache session_single_log)
  have three: "suspicious_responses
      (session ''Wi-Fi'' [(foo_example, PyStr ''1.1.1.1''), (bar_example, PyStr ''5.5.5.5''),
                          (foo_example, PyStr ''2.2.2.2'')]) =
      [(foo_example, PyStr ''1.1.1.1'', PyStr ''2.2.2.2'')]"
    using session_snoc [of "''Wi-Fi''" "[(foo_example, PyStr ''1.1.1.1''), (bar_example, PyStr ''5.5.5.5'')]"
        "(foo_example, PyStr ''2.2.2.2'')"]
    by (simp add: observed_eq session_cache two)
  show ?thesis
    using session_snoc [of "''Wi-Fi''" "[(foo_example, PyStr ''1.1.1.1''), (bar_example, PyStr ''5.5.5.5''),
                          (foo_example, PyStr ''2.2.2.2'')]" "(bar_example, PyStr ''6.6.6.6'')"]
    by (simp add: observed_eq session_cache three)
qed

lemma session_log_repeated:
  "a \<noteq> b \<Longrightarrow>
   suspicious_responses (session iface ((n, a) # replicate k (n, b))) = replicate k (n, a, b)"
proof (induction k)
  case 0
  show ?case by (simp add: session_single_log)
next
  case (Suc k)
  have "(n, a) # replicate (Suc k) (n, b) = ((n, a) # replicate k (n, b)) @ [(n, b)]"
    by (simp add: replicate_append_same)
  then have "session iface ((n, a) # replicate (Suc k) (n, b)) =
      observed (session iface ((n, a) # replicate k (n, b))) (n, b)"
    by (simp only: session_snoc)
  with Suc show ?case
    by (simp add: observed_eq session_cache replicate_append_same)
qed

subsection \<open>Packets without an answer\<close>

text \<open>
  Claim C9. A captured packet that carries no answer record (no \<^verbatim>\<open>DNSRR\<close> layer), such as
  a plain query, is ignored by \<^verbatim>\<open>dns_detect\<close>: the call returns normally, the object
  (its cache and its list of suspicious responses included) is what it was, and nothing is
  printed.
\<close>

theorem no_answer_ignored:
  "dnsrr p = None \<Longrightarrow> dns_detect self p = Inr (self, [])"
  by (simp add: dns_detect_def)

text \<open>A query for a name that is already cached, given to a detector with one cache entry.\<close>

theorem no_answer_ignored_witness:
  "dnsrr \<lparr>dnsqr = Some (Utf8 ''foo.example.''), dnsrr = None\<rparr> = None
   \<and> dns_detect (session ''Wi-Fi'' [(''foo.example.'', PyStr ''1.1.1.1'')])
        \<lparr>dnsqr = Some (Utf8 ''foo.example.''), dnsrr = None\<rparr> =
      Inr (session ''Wi-Fi'' [(''foo.example.'', PyStr ''1.1.1.1'')], [])"
  using no_answer_ignored
    [of "\<lparr>dnsqr = Some (Utf8 ''foo.example.''), dnsrr = None\<rparr>"
        "session ''Wi-Fi'' [(''foo.example.'', PyStr ''1.1.1.1'')]"]
  by simp

subsection \<open>Suspicion records\<close>

text \<open>
  Claim C1. Whatever response records a session has processed, the next record \<open>(n, a)\<close>
  appends the triple (name, cached address, observed address) to the list of suspicious
  responses exactly when the cache already holds an address for \<open>n\<close> that differs from
  \<open>a\<close>; when the cached address equals \<open>a\<close>, or \<open>n\<close> is not cached yet, the list
  stays as it is. Read along the prefixes of a sequence, this gives the whole list after a
  session: exactly these triples, in arrival order.
\<close>

theorem suspicion_iff_divergence:
  "suspicious_responses (session iface (rs @ [(n, a)])) =
     suspicious_responses (session iface rs) @
       (case cache (session iface rs) n of
          Some cached \<Rightarrow> if cached \<noteq> a then [(n, cached, a)] else []
        | None \<Rightarrow> [])"
proof -
  have "session iface (rs @ [(n, a)]) = observed (session iface rs) (n, a)"
    by (rule session_snoc)
  then show ?thesis
    by (simp add: observed_eq split: option.splits)
qed

text \<open>
  The same name twice with different addresses gives one record; with the same address,
  or for another name, none.
\<close>

theorem suspicion_iff_divergence_witness:
  "suspicious_responses
     (session ''Wi-Fi'' ([(''foo.example.'', PyStr ''1.1.1.1'')] @
                         [(''foo.example.'', PyStr ''2.2.2.2'')])) =
     [(''foo.example.'', PyStr ''1.1.1.1'', PyStr ''2.2.2.2'')]
   \<and> suspicious_responses
     (session ''Wi-Fi'' ([(''foo.example.'', PyStr ''1.1.1.1'')] @
                         [(''foo.example.'', PyStr ''1.1.1.1'')])) = []
   \<and> suspicious_responses
     (session ''Wi-Fi'' ([(''foo.example.'', PyStr ''1.1.1.1'')] @
                         [(''bar.example.'', PyStr ''2.2.2.2'')])) = []"
  using suspicion_iff_divergence
      [of "''Wi-Fi''" "[(''foo.example.'', PyStr ''1.1.1.1'')]" "''foo.example.''"
          "PyStr ''2.2.2.2''"]
    suspicion_iff_divergence
      [of "''Wi-Fi''" "[(''foo.example.'', PyStr ''1.1.1.1'')]" "''foo.example.''"
          "PyStr ''1.1.1.1''"]
    suspicion_iff_divergence
      [of "''Wi-Fi''" "[(''foo.example.'', PyStr ''1.1.1.1'')]" "''bar.example.''"
          "PyStr ''2.2.2.2''"]
  by (simp add: session_cache session_single_log)

subsection \<open>First write wins\<close>

text \<open>
  Claim C2. In every sequence of response records, the first record for a name \<open>n\<close> stores
  its address: before it the cache has no entry for \<open>n\<close>, right after it the entry is
  the record's address \<open>a\<close>, and after any further records, for \<open>n\<close> or for other
  names, with the same or with another address, the entry is still \<open>a\<close>.
\<close>

theorem first_write_wins:
  assumes "n \<notin> fst ` set before"
  shows "cache (session iface before) n = None
       \<and> cache (session iface (before @ [(n, a)])) n = Some a
       \<and> cache (session iface (before @ (n, a) # later)) n = Some a"
proof -
  from assms have "map_of before n = None"
    by (simp add: map_of_eq_None_iff)
  then show ?thesis
    by (simp add: session_cache map_add_def)
qed

text \<open>
  A record for another name first, then three records for the name, the last with a new
  address.
\<close>

theorem first_write_wins_witness:
  "''foo.example.'' \<notin> fst ` set [(''bar.example.'', PyStr ''9.9.9.9'')]
   \<and> cache (session ''Wi-Fi'' [(''bar.example.'', PyStr ''9.9.9.9'')]) ''foo.example.'' = None
   \<and> cache (session ''Wi-Fi''
        ([(''bar.example.'', PyStr ''9.9.9.9'')] @ [(''foo.example.'', PyStr ''1.1.1.1'')]))
        ''foo.example.'' = Some (PyStr ''1.1.1.1'')
   \<and> cache (session ''Wi-Fi''
        ([(''bar.example.'', PyStr ''9.9.9.9'')] @ (''foo.example.'', PyStr ''1.1.1.1'') #
         [(''foo.example.'', PyStr ''1.1.1.1''), (''foo.example.'', PyStr ''2.2.2.2'')]))
        ''foo.example.'' = Some (PyStr ''1.1.1.1'')"
  using first_write_wins
      [of "''foo.example.''" "[(''bar.example.'', PyStr ''9.9.9.9'')]" "''Wi-Fi''"
          "PyStr ''1.1.1.1''"
          "[(''foo.example.'', PyStr ''1.1.1.1''), (''foo.example.'', PyStr ''2.2.2.2'')]"]
  by simp

section \<open>Properties of the verification phase\<close>

subsection \<open>The object is handed on unchanged\<close>

lemma trace_actual_dns_frame: "fst (trace_actual_dns srv self d real spoofed) = self"
  by (simp add: trace_actual_dns_def)

lemma verify_dns_frame: "fst (verify_dns srv self d) = self"
  by (simp add: verify_dns_def trace_actual_dns_def split: resolution.splits option.splits)

subsection \<open>What one verification does\<close>

lemma trace_actual_dns_calls:
  "calls (snd (trace_actual_dns srv self d real spoofed)) =
     [Whois d, Rdap (PyStr real), Rdap spoofed]"
  by (simp add: trace_actual_dns_def calls_def split: sum.splits option.splits)

lemma trace_actual_dns_no_confirm:
  "Print (ConfirmedSpoofing n) \<notin> set (snd (trace_actual_dns srv self d real spoofed))"
  by (simp add: trace_actual_dns_def split: sum.splits option.splits)

lemma trace_actual_dns_rdap:
  "(Rdap x \<in> set (snd (trace_actual_dns srv self d real spoofed))) =
     (x = PyStr real \<or> x = spoofed)"
  by (auto simp: trace_actual_dns_def split: sum.splits option.splits)

lemma trace_actual_dns_whois:
  "Whois d \<in> set (snd (trace_actual_dns srv self d real spoofed))"
  by (simp add: trace_actual_dns_def)

lemma verify_dns_answer:
  assumes "resolve srv (nameservers self) d = Answer real"
  shows "verify_dns srv self d =
     (case cache self d of
        Some cached \<Rightarrow>
          if truthy cached \<and> PyStr real \<noteq> cached then
            (self, Some real,
             [Resolve d, Print (ConfirmedSpoofing d), Print (RealIP real),
              Print (SpoofedIP cached)] @ snd (trace_actual_dns srv self d real cached))
          else (self, Some real, [Resolve d])
      | None \<Rightarrow> (self, Some real, [Resolve d]))"
  using assms
  by (simp add: verify_dns_def split_beta trace_actual_dns_frame split: option.splits)

lemma verify_dns_nxdomain:
  "resolve srv (nameservers self) d = NXDOMAIN \<Longrightarrow>
   verify_dns srv self d = (self, None, [Resolve d, Print (DoesNotExist d)])"
  by (simp add: verify_dns_def)

lemma verify_dns_error:
  "resolve srv (nameservers self) d = ResolverError e \<Longrightarrow>
   verify_dns srv self d = (self, None, [Resolve d, Print (ErrorResolving d e)])"
  by (simp add: verify_dns_def)

lemma constant_services_simps:
  "resolve (constant_services r w i) ns d = r"
  "whois (constant_services r w i) d = w"
  "lookup_rdap (constant_services r w i) ip = i"
  by (simp_all add: constant_services_def)

subsection \<open>What the pool does\<close>

text \<open>
  The futures are all filled exactly when none of them is empty, and then they are read
  off in the order of submission.
\<close>

lemma first_of_triple: "(\<lambda>(domain, _, _). domain) = fst"
  by (rule ext) (simp add: split_beta)

lemma those_eq_Some: "those xs = Some ys \<longleftrightarrow> xs = map Some ys"
proof (induction xs arbitrary: ys)
  case Nil
  show ?case by auto
next
  case (Cons x xs)
  show ?case
  proof (cases x)
    case None
    then show ?thesis by auto
  next
    case (Some y)
    with Cons.IH show ?thesis by (cases ys) auto
  qed
qed

lemma those_eq_None: "those xs = None \<longleftrightarrow> None \<in> set xs"
proof (induction xs)
  case Nil
  show ?case by simp
next
  case (Cons x xs)
  then show ?case by (cases x) auto
qed

text \<open>Every move keeps \<open>pool_ok\<close>, which holds once the tasks are submitted.\<close>

lemma pool_ok_submit: "pool_ok world self tasks (submit_all self tasks)"
proof -
  have "fst ` set (enumerate 0 tasks) = {0..<length tasks}"
    using map_fst_enumerate [of 0 tasks] by (metis add_0 list.set_map set_upt)
  then show ?thesis
    by (auto simp: pool_ok_def submit_all_def in_set_enumerate_eq)
qed

lemma step_Finish_fields:
  assumes "k < length (running p)" and "running p ! k = (i, d)"
  shows "owner (step world p (Finish k)) = fst (verify_dns (world i) (owner p) d)"
    and "queued (step world p (Finish k)) = queued p"
    and "running (step world p (Finish k)) = take k (running p) @ drop (Suc k) (running p)"
    and "slots (step world p (Finish k)) =
          (slots p)[i := Some \<lparr>task_domain = d,
             task_result = fst (snd (verify_dns (world i) (owner p) d)),
             task_events = snd (snd (verify_dns (world i) (owner p) d))\<rparr>]"
  using assms by (simp_all add: split_beta)

lemma pool_ok_Start:
  assumes ok: "pool_ok world self tasks p"
  shows "pool_ok world self tasks (step world p Start)"
proof (cases "queued p")
  case Nil
  with ok show ?thesis by simp
next
  case (Cons t rest)
  show ?thesis
  proof (cases "length (running p) < max_workers")
    case False
    with ok Cons show ?thesis by simp
  next
    case True
    have same: "set (rest @ running p @ [t]) = set (queued p @ running p)"
      using Cons by auto
    have dist: "distinct (map fst (rest @ running p @ [t]))"
      using ok Cons by (auto simp: pool_ok_def)
    from True have len: "length (running p @ [t]) \<le> max_workers" by simp
    have fields: "step world p Start = p\<lparr>queued := rest, running := running p @ [t]\<rparr>"
      using Cons True by simp
    from ok have old: "owner p = self" "length (slots p) = length tasks"
      "\<forall>i d. (i, d) \<in> set (queued p @ running p) \<longrightarrow>
         i < length tasks \<and> d = tasks ! i \<and> slots p ! i = None"
      "\<forall>j < length tasks. slots p ! j = None \<longrightarrow> j \<in> fst ` set (queued p @ running p)"
      "\<forall>j < length tasks. \<forall>f. slots p ! j = Some f \<longrightarrow>
        f = \<lparr>task_domain = tasks ! j,
             task_result = fst (snd (verify_dns (world j) self (tasks ! j))),
             task_events = snd (snd (verify_dns (world j) self (tasks ! j)))\<rparr>"
      by (simp_all add: pool_ok_def)
    show ?thesis
      unfolding pool_ok_def fields
      using old same dist len by simp
  qed
qed

lemma pool_ok_Finish:
  assumes ok: "pool_ok world self tasks p"
  shows "pool_ok world self tasks (step world p (Finish k))"
proof (cases "k < length (running p)")
  case False
  with ok show ?thesis by simp
next
  case True
  obtain i d where rk: "running p ! k = (i, d)" by (cases "running p ! k")
  let ?r = "take k (running p) @ drop (Suc k) (running p)"
  let ?f = "\<lparr>task_domain = d,
             task_result = fst (snd (verify_dns (world i) (owner p) d)),
             task_events = snd (snd (verify_dns (world i) (owner p) d))\<rparr>"
  note fields = step_Finish_fields [OF True rk, of world]
  from ok have own: "owner p = self" and len: "length (slots p) = length tasks"
    and bound: "length (running p) \<le> max_workers"
    and dist: "distinct (map fst (queued p @ running p))"
    and active: "\<forall>i d. (i, d) \<in> set (queued p @ running p) \<longrightarrow>
         i < length tasks \<and> d = tasks ! i \<and> slots p ! i = None"
    and empty: "\<forall>j < length tasks. slots p ! j = None \<longrightarrow> j \<in> fst ` set (queued p @ running p)"
    and filled: "\<forall>j < length tasks. \<forall>f. slots p ! j = Some f \<longrightarrow>
        f = \<lparr>task_domain = tasks ! j,
             task_result = fst (snd (verify_dns (world j) self (tasks ! j))),
             task_events = snd (snd (verify_dns (world j) self (tasks ! j)))\<rparr>"
    by (simp_all add: pool_ok_def)
  have split: "running p = take k (running p) @ (i, d) # drop (Suc k) (running p)"
    using id_take_nth_drop [OF True] rk by simp
  have "(i, d) \<in> set (running p)"
    using True rk nth_mem by fastforce
  with active have i: "i < length tasks" and d: "d = tasks ! i" by auto
  have "distinct (map fst (queued p @ take k (running p) @ (i, d) # drop (Suc k) (running p)))"
    using dist split by simp
  then have dist': "distinct (map fst (queued p @ ?r))" and fresh: "i \<notin> fst ` set (queued p @ ?r)"
    by auto
  have "set (queued p @ running p) = insert (i, d) (set (queued p @ ?r))"
    by (subst split) auto
  then have sets: "set (queued p @ running p) = insert (i, d) (set (queued p @ ?r))" .
  have c1: "owner (step world p (Finish k)) = self"
    by (simp add: fields own verify_dns_frame del: step.simps)
  have c2: "length (slots (step world p (Finish k))) = length tasks"
    by (simp add: fields len del: step.simps)
  have c3: "length (running (step world p (Finish k))) \<le> max_workers"
    using bound by (simp add: fields del: step.simps)
  have c4: "distinct (map fst (queued (step world p (Finish k)) @ running (step world p (Finish k))))"
    using dist' by (simp add: fields del: step.simps)
  have c5: "\<forall>i' d'. (i', d') \<in> set (queued (step world p (Finish k)) @ running (step world p (Finish k))) \<longrightarrow>
         i' < length tasks \<and> d' = tasks ! i' \<and> slots (step world p (Finish k)) ! i' = None"
  proof (intro allI impI)
    fix i' d'
    assume "(i', d') \<in> set (queued (step world p (Finish k)) @ running (step world p (Finish k)))"
    then have mem: "(i', d') \<in> set (queued p @ ?r)" by (simp add: fields del: step.simps)
    with fresh have "i' \<noteq> i" by force
    moreover from mem sets have "(i', d') \<in> set (queued p @ running p)" by blast
    with active have "i' < length tasks \<and> d' = tasks ! i' \<and> slots p ! i' = None" by blast
    ultimately show "i' < length tasks \<and> d' = tasks ! i' \<and> slots (step world p (Finish k)) ! i' = None"
      by (simp add: fields del: step.simps)
  qed
  have c6: "\<forall>j < length tasks. slots (step world p (Finish k)) ! j = None \<longrightarrow>
      j \<in> fst ` set (queued (step world p (Finish k)) @ running (step world p (Finish k)))"
  proof (intro allI impI)
    fix j
    assume j: "j < length tasks" and none: "slots (step world p (Finish k)) ! j = None"
    from none i len have "j \<noteq> i" by (auto simp: fields simp del: step.simps)
    with none have "slots p ! j = None" by (simp add: fields del: step.simps)
    with empty j have "j \<in> fst ` set (queued p @ running p)" by blast
    with sets \<open>j \<noteq> i\<close> have "j \<in> fst ` set (queued p @ ?r)" by force
    then show "j \<in> fst ` set (queued (step world p (Finish k)) @ running (step world p (Finish k)))"
      by (simp add: fields del: step.simps)
  qed
  have c7: "\<forall>j < length tasks. \<forall>f. slots (step world p (Finish k)) ! j = Some f \<longrightarrow>
        f = \<lparr>task_domain = tasks ! j,
             task_result = fst (snd (verify_dns (world j) self (tasks ! j))),
             task_events = snd (snd (verify_dns (world j) self (tasks ! j)))\<rparr>"
  proof (intro allI impI)
    fix j f
    assume j: "j < length tasks" and some: "slots (step world p (Finish k)) ! j = Some f"
    show "f = \<lparr>task_domain = tasks ! j,
             task_result = fst (snd (verify_dns (world j) self (tasks ! j))),
             task_events = snd (snd (verify_dns (world j) self (tasks ! j)))\<rparr>"
    proof (cases "j = i")
      case True
      with some i len have "f = ?f" by (simp add: fields del: step.simps)
      with True d own show ?thesis by simp
    next
      case False
      with some have "slots p ! j = Some f" by (simp add: fields del: step.simps)
      with filled j show ?thesis by blast
    qed
  qed
  from c1 c2 c3 c4 c5 c6 c7 show ?thesis
    unfolding pool_ok_def by (intro conjI)
qed

lemma pool_ok_step: "pool_ok world self tasks p \<Longrightarrow> pool_ok world self tasks (step world p m)"
  by (cases m) (simp_all only: pool_ok_Start pool_ok_Finish)

lemma pool_ok_foldl:
  "pool_ok world self tasks p \<Longrightarrow> pool_ok world self tasks (foldl (step world) p sched)"
  by (induction sched arbitrary: p) (simp_all add: pool_ok_step del: step.simps)

lemma pool_ok_after:
  "pool_ok world self (map fst (suspicious_responses self)) (pool_after world sched self)"
  unfolding pool_after_def first_of_triple
  by (rule pool_ok_foldl) (rule pool_ok_submit)

text \<open>
  When the call returns, nothing is queued or being executed and the futures are those of
  the tasks; and the call does return when the workers move one at a time.
\<close>

lemma pool_ok_returned:
  assumes ok: "pool_ok world self tasks p" and ret: "those (slots p) = Some futures"
  shows "queued p = []" and "running p = []" and "length futures = length tasks"
    and "\<forall>j < length tasks. futures ! j =
          \<lparr>task_domain = tasks ! j,
           task_result = fst (snd (verify_dns (world j) self (tasks ! j))),
           task_events = snd (snd (verify_dns (world j) self (tasks ! j)))\<rparr>"
proof -
  from ret have slots: "slots p = map Some futures" by (simp add: those_eq_Some)
  from ok have len: "length (slots p) = length tasks"
    and active: "\<forall>i d. (i, d) \<in> set (queued p @ running p) \<longrightarrow>
         i < length tasks \<and> d = tasks ! i \<and> slots p ! i = None"
    and filled: "\<forall>j < length tasks. \<forall>f. slots p ! j = Some f \<longrightarrow>
        f = \<lparr>task_domain = tasks ! j,
             task_result = fst (snd (verify_dns (world j) self (tasks ! j))),
             task_events = snd (snd (verify_dns (world j) self (tasks ! j)))\<rparr>"
    by (simp_all add: pool_ok_def)
  from slots len show n: "length futures = length tasks" by simp
  have none: "t \<notin> set (queued p @ running p)" for t
  proof
    assume t: "t \<in> set (queued p @ running p)"
    obtain i d where "t = (i, d)" by (cases t)
    with t active have "i < length tasks" and "slots p ! i = None" by blast+
    with slots n show False by simp
  qed
  show "queued p = []"
  proof (cases "queued p")
    case (Cons t rest)
    with none [of t] show ?thesis by simp
  qed simp
  show "running p = []"
  proof (cases "running p")
    case (Cons t rest)
    with none [of t] show ?thesis by simp
  qed simp
  show "\<forall>j < length tasks. futures ! j =
          \<lparr>task_domain = tasks ! j,
           task_result = fst (snd (verify_dns (world j) self (tasks ! j))),
           task_events = snd (snd (verify_dns (world j) self (tasks ! j)))\<rparr>"
  proof (intro allI impI)
    fix j
    assume j: "j < length tasks"
    with slots n have "slots p ! j = Some (futures ! j)" by simp
    with filled j show "futures ! j =
          \<lparr>task_domain = tasks ! j,
           task_result = fst (snd (verify_dns (world j) self (tasks ! j))),
           task_events = snd (snd (verify_dns (world j) self (tasks ! j)))\<rparr>"
      by blast
  qed
qed

lemma one_by_one_drains:
  "running p = [] \<Longrightarrow> n = length (queued p) \<Longrightarrow>
   queued (foldl (step world) p (one_by_one n)) = [] \<and>
   running (foldl (step world) p (one_by_one n)) = []"
proof (induction n arbitrary: p)
  case 0
  then show ?case by (simp add: one_by_one_def)
next
  case (Suc n)
  then obtain t rest where q: "queued p = t # rest" by (cases "queued p") auto
  let ?p = "step world (step world p Start) (Finish 0)"
  from Suc.prems q have started: "step world p Start = p\<lparr>queued := rest, running := [t]\<rparr>"
    by (simp add: max_workers_def)
  have "running ?p = []" and "queued ?p = rest"
    unfolding started by (simp_all add: split_beta)
  with Suc.IH [of ?p] Suc.prems q
  have "queued (foldl (step world) ?p (one_by_one n)) = [] \<and>
        running (foldl (step world) ?p (one_by_one n)) = []"
    by simp
  then show ?case by (simp add: one_by_one_def del: step.simps)
qed

lemma pool_ok_drained:
  assumes ok: "pool_ok world self tasks p" and "queued p = []" and "running p = []"
  shows "those (slots p) \<noteq> None"
proof
  assume "those (slots p) = None"
  then have "None \<in> set (slots p)" by (simp add: those_eq_None)
  then obtain j where "j < length (slots p)" and "slots p ! j = None"
    by (metis in_set_conv_nth)
  with ok assms(2,3) show False by (auto simp: pool_ok_def)
qed

lemma one_by_one_returns:
  "verify_suspicious_responses world (one_by_one (length (suspicious_responses self))) self \<noteq> None"
proof -
  let ?sched = "one_by_one (length (suspicious_responses self))"
  have "queued (pool_after world ?sched self) = [] \<and> running (pool_after world ?sched self) = []"
    unfolding pool_after_def
    by (rule one_by_one_drains) (simp_all add: submit_all_def)
  with pool_ok_after [of world self ?sched]
  have "those (slots (pool_after world ?sched self)) \<noteq> None"
    by (simp add: pool_ok_drained)
  then show ?thesis
    by (auto simp: verify_suspicious_responses_def Let_def split: option.splits)
qed

lemma returned_futures:
  assumes "verify_suspicious_responses world sched self = Some (self', out, futures)"
  shows "self' = self" and "out = [VerifyingSuspicious]"
    and "queued (pool_after world sched self) = []"
    and "running (pool_after world sched self) = []"
    and "length futures = length (suspicious_responses self)"
    and "\<forall>j < length (suspicious_responses self). futures ! j =
          \<lparr>task_domain = fst (suspicious_responses self ! j),
           task_result =
             fst (snd (verify_dns (world j) self (fst (suspicious_responses self ! j)))),
           task_events =
             snd (snd (verify_dns (world j) self (fst (suspicious_responses self ! j))))\<rparr>"
proof -
  from assms have ret: "those (slots (pool_after world sched self)) = Some futures"
    and own: "self' = owner (pool_after world sched self)" and "out = [VerifyingSuspicious]"
    by (auto simp: verify_suspicious_responses_def Let_def split: option.splits)
  then show "out = [VerifyingSuspicious]" by simp
  note ok = pool_ok_after [of world self sched]
  from ok own show "self' = self" by (simp add: pool_ok_def)
  from pool_ok_returned [OF ok ret]
  show "queued (pool_after world sched self) = []"
    and "running (pool_after world sched self) = []"
    and "length futures = length (suspicious_responses self)"
    and "\<forall>j < length (suspicious_responses self). futures ! j =
          \<lparr>task_domain = fst (suspicious_responses self ! j),
           task_result =
             fst (snd (verify_dns (world j) self (fst (suspicious_responses self ! j)))),
           task_events =
             snd (snd (verify_dns (world j) self (fst (suspicious_responses self ! j))))\<rparr>"
    by simp_all
qed

lemma submitted_tasks:
  "queued (pool_after world [] self) = enumerate 0 (map fst (suspicious_responses self))"
  by (simp add: pool_after_def submit_all_def first_of_triple)

lemma running_bounded: "length (running (pool_after world sched self)) \<le> 5"
  using pool_ok_after [of world self sched] by (simp add: pool_ok_def max_workers_def)

lemma owner_after: "owner (pool_after world sched self) = self"
  using pool_ok_after [of world self sched] by (simp add: pool_ok_def)

subsection \<open>Concrete runs of the pool\<close>

lemma three_answers_tasks:
  "pool_after world [] (session ''Wi-Fi'' three_answers) =
     \<lparr>owner = session ''Wi-Fi'' three_answers,
      queued = [(0, foo_example), (1, foo_example)], running = [], slots = [None, None]\<rparr>"
  by (simp add: pool_after_def submit_all_def session_log_triple)

lemma three_answers_run:
  "verify_suspicious_responses (every_task (unreachable ''1.1.1.1''))
      [Start, Start, Finish 1, Finish 0] (session ''Wi-Fi'' three_answers) =
     Some (session ''Wi-Fi'' three_answers, [VerifyingSuspicious],
       [\<lparr>task_domain = foo_example, task_result = Some ''1.1.1.1'',
          task_events = [Resolve foo_example]\<rparr>,
        \<lparr>task_domain = foo_example, task_result = Some ''1.1.1.1'',
          task_events = [Resolve foo_example]\<rparr>])"
  by (simp add: verify_suspicious_responses_def pool_after_def submit_all_def
      session_log_triple max_workers_def every_task_def verify_dns_answer
      constant_services_simps session_cache)

lemma three_answers_both_running:
  "running (pool_after (every_task (unreachable ''1.1.1.1'')) [Start, Start]
      (session ''Wi-Fi'' three_answers)) = [(0, foo_example), (1, foo_example)]"
  by (simp add: pool_after_def submit_all_def session_log_triple max_workers_def)

lemma two_names_run:
  "verify_suspicious_responses (first_fails NXDOMAIN) [Start, Start, Finish 1, Finish 0]
      (session ''Wi-Fi'' two_names) =
     Some (session ''Wi-Fi'' two_names, [VerifyingSuspicious],
       [\<lparr>task_domain = foo_example, task_result = None,
          task_events = [Resolve foo_example, Print (DoesNotExist foo_example)]\<rparr>,
        \<lparr>task_domain = bar_example, task_result = Some ''5.5.5.5'',
          task_events = [Resolve bar_example]\<rparr>])"
  by (simp add: verify_suspicious_responses_def pool_after_def submit_all_def
      two_names_log max_workers_def verify_dns_answer verify_dns_nxdomain
      constant_services_simps session_cache)

lemma six_divergent_starts:
  "length (running (pool_after world (replicate 6 Start) (session ''Wi-Fi'' six_divergent))) = 5
   \<and> map fst (queued (pool_after world (replicate 6 Start) (session ''Wi-Fi'' six_divergent))) = [5]"
proof -
  have six: "(6::nat) = Suc (Suc (Suc (Suc (Suc (Suc 0)))))" by simp
  have log: "suspicious_responses (session ''Wi-Fi'' six_divergent) =
      replicate 6 (foo_example, PyStr ''1.1.1.1'', PyStr ''2.2.2.2'')"
    by (simp add: session_log_repeated)
  show ?thesis
    unfolding pool_after_def submit_all_def log
    unfolding six
    by (simp add: max_workers_def)
qed

subsection \<open>Confirmation\<close>

text \<open>
  Claim C3 as stated: for a suspected name whose lookup succeeds, the suspicion is confirmed
  exactly when the resolver's answer differs from the cached address. The test in
  \<^verbatim>\<open>verify_dns\<close> is \<^verbatim>\<open>cached_ip and real_ip != cached_ip\<close>, and an empty cached value
  is false. A session whose first answer for the name carried empty data (an answer record
  of zero length) and whose second answer carried an address has the name in its list of
  suspicious responses with the empty value cached; the resolver's answer differs from
  it, and yet nothing is confirmed and no lookup is made.
\<close>

theorem confirmed_iff_differs_counterexample:
  "(foo_example, PyBytes [], PyStr ''2.2.2.2'') \<in>
      set (suspicious_responses (session ''Wi-Fi'' empty_then_answer))
   \<and> cache (session ''Wi-Fi'' empty_then_answer) foo_example = Some (PyBytes [])
   \<and> PyStr ''3.3.3.3'' \<noteq> PyBytes []
   \<and> snd (verify_dns (unreachable ''3.3.3.3'')
             (session ''Wi-Fi'' empty_then_answer) foo_example) =
       (Some ''3.3.3.3'', [Resolve foo_example])"
  by (simp add: session_log_pair session_cache verify_dns_answer constant_services_simps)

text \<open>
  Claim C3, amended. After any capture session, for every entry \<open>(n, c, obs)\<close> of the
  list of suspicious responses and every successful lookup of \<open>n\<close> with answer
  \<open>real\<close>: \<^verbatim>\<open>verify_dns\<close> returns \<open>real\<close>, and it reports a confirmed spoof and goes on
  to attribution exactly when the cached address \<open>c\<close> is not empty and differs from
  \<open>real\<close>. Otherwise (they match, or \<open>c\<close> is empty) it only resolves: nothing is
  reported and no attribution lookup is made.
\<close>

theorem confirmed_iff_nonempty_and_differs:
  assumes self: "self = fst (start_detecting (init iface) cap)"
    and suspected: "(n, c, obs) \<in> set (suspicious_responses self)"
    and answer: "resolve srv (nameservers self) n = Answer real"
  shows "verify_dns srv self n =
           (if truthy c \<and> PyStr real \<noteq> c then
              (self, Some real,
               [Resolve n, Print (ConfirmedSpoofing n), Print (RealIP real),
                Print (SpoofedIP c)] @ snd (trace_actual_dns srv self n real c))
            else (self, Some real, [Resolve n]))
       \<and> (Print (ConfirmedSpoofing n) \<in> set (snd (snd (verify_dns srv self n)))) =
           (truthy c \<and> PyStr real \<noteq> c)
       \<and> (Whois n \<in> set (snd (snd (verify_dns srv self n)))) =
           (truthy c \<and> PyStr real \<noteq> c)"
proof -
  from suspected have cached: "cache self n = Some c"
    unfolding self by (rule start_detecting_log_cached [THEN conjunct1])
  have run: "verify_dns srv self n =
           (if truthy c \<and> PyStr real \<noteq> c then
              (self, Some real,
               [Resolve n, Print (ConfirmedSpoofing n), Print (RealIP real),
                Print (SpoofedIP c)] @ snd (trace_actual_dns srv self n real c))
            else (self, Some real, [Resolve n]))"
    by (simp add: verify_dns_answer [OF answer] cached)
  show ?thesis
  proof (cases "truthy c \<and> PyStr real \<noteq> c")
    case True
    with run show ?thesis by (simp add: trace_actual_dns_whois)
  next
    case False
    with run show ?thesis by auto
  qed
qed

text \<open>
  The session of the two answers \<open>1.1.1.1\<close> and \<open>2.2.2.2\<close>: a resolver answering
  \<open>3.3.3.3\<close> confirms, one answering \<open>1.1.1.1\<close> does not.
\<close>

theorem confirmed_iff_nonempty_and_differs_witness:
  "(foo_example, PyStr ''1.1.1.1'', PyStr ''2.2.2.2'') \<in> set (suspicious_responses (session ''Wi-Fi'' two_answers))
   \<and> resolve (unreachable ''3.3.3.3'') (nameservers (session ''Wi-Fi'' two_answers)) foo_example =
       Answer ''3.3.3.3''
   \<and> resolve (unreachable ''1.1.1.1'') (nameservers (session ''Wi-Fi'' two_answers)) foo_example =
       Answer ''1.1.1.1''
   \<and> snd (verify_dns (unreachable ''3.3.3.3'') (session ''Wi-Fi'' two_answers) foo_example) =
       (Some ''3.3.3.3'',
        [Resolve foo_example, Print (ConfirmedSpoofing foo_example), Print (RealIP ''3.3.3.3''),
         Print (SpoofedIP (PyStr ''1.1.1.1'')), Print (TracingActual foo_example),
         Whois foo_example, Print (WhoisUnavailable ''timed out''),
         Rdap (PyStr ''3.3.3.3''), Print (RealUnavailable ''timed out''),
         Rdap (PyStr ''1.1.1.1''), Print (SpoofedUnavailable ''timed out'')])
   \<and> snd (verify_dns (unreachable ''1.1.1.1'') (session ''Wi-Fi'' two_answers) foo_example) =
       (Some ''1.1.1.1'', [Resolve foo_example])"
  using confirmed_iff_nonempty_and_differs
      [OF session_capture, of foo_example "PyStr ''1.1.1.1''" "PyStr ''2.2.2.2''" "''Wi-Fi''" two_answers
          "unreachable ''3.3.3.3''" "''3.3.3.3''"]
    confirmed_iff_nonempty_and_differs
      [OF session_capture, of foo_example "PyStr ''1.1.1.1''" "PyStr ''2.2.2.2''" "''Wi-Fi''" two_answers
          "unreachable ''1.1.1.1''" "''1.1.1.1''"]
  by (simp add: session_log_pair constant_services_simps trace_actual_dns_def)

text \<open>
  Claim C10. When \<^verbatim>\<open>verify_dns\<close> is called for a name the cache has no entry for and the
  lookup succeeds, it returns the resolved address and does nothing else: no confirmed
  spoof is printed and \<^verbatim>\<open>trace_actual_dns\<close> is not called.
\<close>

theorem uncached_never_confirmed:
  assumes "cache self d = None" and "resolve srv (nameservers self) d = Answer real"
  shows "verify_dns srv self d = (self, Some real, [Resolve d])"
  using assms by (simp add: verify_dns_answer)

text \<open>A fresh detector, whose cache is empty.\<close>

theorem uncached_never_confirmed_witness:
  "cache (init ''Wi-Fi'') foo_example = None
   \<and> resolve (unreachable ''3.3.3.3'') (nameservers (init ''Wi-Fi'')) foo_example = Answer ''3.3.3.3''
   \<and> verify_dns (unreachable ''3.3.3.3'') (init ''Wi-Fi'') foo_example =
       (init ''Wi-Fi'', Some ''3.3.3.3'', [Resolve foo_example])"
proof -
  have uncached: "cache (init ''Wi-Fi'') foo_example = None"
    by (simp add: init_def)
  have answer: "resolve (unreachable ''3.3.3.3'') (nameservers (init ''Wi-Fi'')) foo_example =
      Answer ''3.3.3.3''"
    by (simp add: constant_services_simps)
  from uncached answer uncached_never_confirmed [OF uncached answer] show ?thesis
    by simp
qed

subsection \<open>Attribution\<close>

text \<open>
  Claim C4 as stated: for a confirmed spoof, attribution looks up the name, the cached
  address and the observed address of the suspicious response. \<^verbatim>\<open>verify_dns\<close> is given
  the name alone and calls \<^verbatim>\<open>trace_actual_dns(domain, real_ip, cached_ip)\<close>: the second
  address looked up is the resolver's answer. With the answers \<open>1.1.1.1\<close> then
  \<open>2.2.2.2\<close> captured and \<open>3.3.3.3\<close> resolved, the observed \<open>2.2.2.2\<close> is never
  looked up.
\<close>

theorem attribution_targets_counterexample:
  "(foo_example, PyStr ''1.1.1.1'', PyStr ''2.2.2.2'') \<in> set (suspicious_responses (session ''Wi-Fi'' two_answers))
   \<and> Print (ConfirmedSpoofing foo_example) \<in>
        set (snd (snd (verify_dns (unreachable ''3.3.3.3'') (session ''Wi-Fi'' two_answers) foo_example)))
   \<and> calls (snd (snd (verify_dns (unreachable ''3.3.3.3'') (session ''Wi-Fi'' two_answers) foo_example))) =
        [Resolve foo_example, Whois foo_example, Rdap (PyStr ''3.3.3.3''), Rdap (PyStr ''1.1.1.1'')]
   \<and> Rdap (PyStr ''2.2.2.2'') \<notin>
        set (snd (snd (verify_dns (unreachable ''3.3.3.3'') (session ''Wi-Fi'' two_answers) foo_example)))"
  by (simp add: session_log_pair session_cache verify_dns_answer constant_services_simps
      trace_actual_dns_def calls_def)

text \<open>
  Claim C4, amended. For every confirmed spoof arising from an entry \<open>(n, c, obs)\<close> of the
  list of suspicious responses, with resolver answer \<open>real\<close>, the external calls of the
  verification are, in order: the resolution of \<open>n\<close>, the registrar lookup for \<open>n\<close>,
  the address lookup for \<open>real\<close> and the address lookup for the cached address \<open>c\<close>.
  The observed address \<open>obs\<close> is looked up only when it is the resolver's answer.
\<close>

theorem attribution_targets:
  assumes self: "self = fst (start_detecting (init iface) cap)"
    and suspected: "(n, c, obs) \<in> set (suspicious_responses self)"
    and answer: "resolve srv (nameservers self) n = Answer real"
    and confirmed: "Print (ConfirmedSpoofing n) \<in> set (snd (snd (verify_dns srv self n)))"
  shows "calls (snd (snd (verify_dns srv self n))) =
           [Resolve n, Whois n, Rdap (PyStr real), Rdap c]
       \<and> (Rdap obs \<in> set (snd (snd (verify_dns srv self n)))) = (obs = PyStr real)"
proof -
  from suspected have cached: "cache self n = Some c" and differs: "c \<noteq> obs"
    unfolding self by (simp_all add: start_detecting_log_cached)
  from confirmed have test: "truthy c \<and> PyStr real \<noteq> c"
    by (simp add: verify_dns_answer [OF answer] cached split: if_splits)
  then have run: "snd (snd (verify_dns srv self n)) =
      [Resolve n, Print (ConfirmedSpoofing n), Print (RealIP real), Print (SpoofedIP c)] @
      snd (trace_actual_dns srv self n real c)"
    by (simp add: verify_dns_answer [OF answer] cached)
  have "calls (snd (snd (verify_dns srv self n))) =
          Resolve n # calls (snd (trace_actual_dns srv self n real c))"
    by (simp add: run calls_def)
  moreover have "(Rdap obs \<in> set (snd (snd (verify_dns srv self n)))) = (obs = PyStr real)"
    using differs by (auto simp: run trace_actual_dns_rdap)
  ultimately show ?thesis
    by (simp add: trace_actual_dns_calls)
qed

text \<open>The same session and resolver as above.\<close>

theorem attribution_targets_witness:
  "(foo_example, PyStr ''1.1.1.1'', PyStr ''2.2.2.2'') \<in> set (suspicious_responses (session ''Wi-Fi'' two_answers))
   \<and> resolve (unreachable ''3.3.3.3'') (nameservers (session ''Wi-Fi'' two_answers)) foo_example =
       Answer ''3.3.3.3''
   \<and> Print (ConfirmedSpoofing foo_example) \<in>
        set (snd (snd (verify_dns (unreachable ''3.3.3.3'') (session ''Wi-Fi'' two_answers) foo_example)))
   \<and> calls (snd (snd (verify_dns (unreachable ''3.3.3.3'') (session ''Wi-Fi'' two_answers) foo_example))) =
        [Resolve foo_example, Whois foo_example, Rdap (PyStr ''3.3.3.3''), Rdap (PyStr ''1.1.1.1'')]
   \<and> (Rdap (PyStr ''2.2.2.2'') \<in>
        set (snd (snd (verify_dns (unreachable ''3.3.3.3'') (session ''Wi-Fi'' two_answers) foo_example)))) =
       (PyStr ''2.2.2.2'' = PyStr ''3.3.3.3'')"
proof -
  have log: "(foo_example, PyStr ''1.1.1.1'', PyStr ''2.2.2.2'') \<in>
      set (suspicious_responses (session ''Wi-Fi'' two_answers))"
    by (simp add: session_log_pair)
  have answer: "resolve (unreachable ''3.3.3.3'') (nameservers (session ''Wi-Fi'' two_answers)) foo_example =
       Answer ''3.3.3.3''"
    by (simp add: constant_services_simps)
  have confirmed: "Print (ConfirmedSpoofing foo_example) \<in>
        set (snd (snd (verify_dns (unreachable ''3.3.3.3'') (session ''Wi-Fi'' two_answers) foo_example)))"
    by (simp add: session_cache verify_dns_answer constant_services_simps)
  from attribution_targets [OF session_capture log answer confirmed] log answer confirmed
  show ?thesis by blast
qed

text \<open>
  Claim C7. In one run of \<^verbatim>\<open>trace_actual_dns\<close> the registrar lookup and the two address
  lookups are all made, in this order, whichever of them fail. Every line of the report is
  decided by its own lookup alone: the registrar and the name servers are printed exactly
  when the registrar lookup gives them, the two lines of an address exactly when the lookup
  of that address succeeds, and the line of a handler exactly when its own lookup raised
  (for the first handler also when the entry has no name servers to join). No line of one
  lookup depends on what another lookup did.
\<close>

theorem attribution_lookups_independent:
  "calls (snd (trace_actual_dns srv self d real spoofed)) =
     [Whois d, Rdap (PyStr real), Rdap spoofed]
   \<and> (Print (WhoisUnavailable e) \<in> set (snd (trace_actual_dns srv self d real spoofed))) =
       (whois srv d = Inl e \<or>
        (\<exists>info. whois srv d = Inr info \<and> name_servers info = None \<and>
                e = ''can only join an iterable''))
   \<and> (Print (DomainRegistrar r) \<in> set (snd (trace_actual_dns srv self d real spoofed))) =
       (\<exists>info. whois srv d = Inr info \<and> registrar info = r)
   \<and> (Print (NameServers ns) \<in> set (snd (trace_actual_dns srv self d real spoofed))) =
       (\<exists>info. whois srv d = Inr info \<and> name_servers info = Some ns)
   \<and> (Print (RealUnavailable e) \<in> set (snd (trace_actual_dns srv self d real spoofed))) =
       (lookup_rdap srv (PyStr real) = Inl e)
   \<and> (Print (RealASN a) \<in> set (snd (trace_actual_dns srv self d real spoofed))) =
       (\<exists>info. lookup_rdap srv (PyStr real) = Inr info \<and> asn info = a)
   \<and> (Print (RealASNDescription a) \<in> set (snd (trace_actual_dns srv self d real spoofed))) =
       (\<exists>info. lookup_rdap srv (PyStr real) = Inr info \<and> asn_description info = a)
   \<and> (Print (SpoofedUnavailable e) \<in> set (snd (trace_actual_dns srv self d real spoofed))) =
       (lookup_rdap srv spoofed = Inl e)
   \<and> (Print (SpoofedASN a) \<in> set (snd (trace_actual_dns srv self d real spoofed))) =
       (\<exists>info. lookup_rdap srv spoofed = Inr info \<and> asn info = a)
   \<and> (Print (SpoofedASNDescription a) \<in> set (snd (trace_actual_dns srv self d real spoofed))) =
       (\<exists>info. lookup_rdap srv spoofed = Inr info \<and> asn_description info = a)"
proof (intro conjI)
  show "calls (snd (trace_actual_dns srv self d real spoofed)) =
     [Whois d, Rdap (PyStr real), Rdap spoofed]"
    by (rule trace_actual_dns_calls)
next
  show "(Print (WhoisUnavailable e) \<in> set (snd (trace_actual_dns srv self d real spoofed))) =
       (whois srv d = Inl e \<or>
        (\<exists>info. whois srv d = Inr info \<and> name_servers info = None \<and>
                e = ''can only join an iterable''))"
  proof (cases "whois srv d")
    case (Inl x)
    then show ?thesis
      by (simp add: trace_actual_dns_def split: sum.splits) (auto split: sum.splits)
  next
    case (Inr info)
    then show ?thesis
      by (cases "name_servers info")
         (auto simp: trace_actual_dns_def split: sum.splits)
  qed
next
  show "(Print (DomainRegistrar r) \<in> set (snd (trace_actual_dns srv self d real spoofed))) =
       (\<exists>info. whois srv d = Inr info \<and> registrar info = r)"
    by (cases "whois srv d")
       (auto simp: trace_actual_dns_def split: sum.splits option.splits)
next
  show "(Print (NameServers ns) \<in> set (snd (trace_actual_dns srv self d real spoofed))) =
       (\<exists>info. whois srv d = Inr info \<and> name_servers info = Some ns)"
    by (cases "whois srv d")
       (auto simp: trace_actual_dns_def split: sum.splits option.splits)
next
  show "(Print (RealUnavailable e) \<in> set (snd (trace_actual_dns srv self d real spoofed))) =
       (lookup_rdap srv (PyStr real) = Inl e)"
    by (cases "lookup_rdap srv (PyStr real)")
       (auto simp: trace_actual_dns_def split: sum.splits option.splits)
next
  show "(Print (RealASN a) \<in> set (snd (trace_actual_dns srv self d real spoofed))) =
       (\<exists>info. lookup_rdap srv (PyStr real) = Inr info \<and> asn info = a)"
    by (cases "lookup_rdap srv (PyStr real)")
       (auto simp: trace_actual_dns_def split: sum.splits option.splits)
next
  show "(Print (RealASNDescription a) \<in> set (snd (trace_actual_dns srv self d real spoofed))) =
       (\<exists>info. lookup_rdap srv (PyStr real) = Inr info \<and> asn_description info = a)"
    by (cases "lookup_rdap srv (PyStr real)")
       (auto simp: trace_actual_dns_def split: sum.splits option.splits)
next
  show "(Print (SpoofedUnavailable e) \<in> set (snd (trace_actual_dns srv self d real spoofed))) =
       (lookup_rdap srv spoofed = Inl e)"
    by (cases "lookup_rdap srv spoofed")
       (auto simp: trace_actual_dns_def split: sum.splits option.splits)
next
  show "(Print (SpoofedASN a) \<in> set (snd (trace_actual_dns srv self d real spoofed))) =
       (\<exists>info. lookup_rdap srv spoofed = Inr info \<and> asn info = a)"
    by (cases "lookup_rdap srv spoofed")
       (auto simp: trace_actual_dns_def split: sum.splits option.splits)
next
  show "(Print (SpoofedASNDescription a) \<in> set (snd (trace_actual_dns srv self d real spoofed))) =
       (\<exists>info. lookup_rdap srv spoofed = Inr info \<and> asn_description info = a)"
    by (cases "lookup_rdap srv spoofed")
       (auto simp: trace_actual_dns_def split: sum.splits option.splits)
qed

text \<open>
  Three runs: the registrar and the second address lookup fail while the first address is
  found; the first address lookup fails while the others answer (the registrar without
  name servers, so that the join raises after the registrar's line); both address lookups
  fail while the registrar and its name servers are reported.
\<close>

theorem attribution_lookups_independent_witness:
  "snd (trace_actual_dns registry_down (init ''Wi-Fi'') foo_example ''3.3.3.3'' (PyStr ''1.1.1.1'')) =
       [Print (TracingActual foo_example),
        Whois foo_example, Print (WhoisUnavailable ''timed out''),
        Rdap (PyStr ''3.3.3.3''), Print (RealASN (Some ''15169'')),
        Print (RealASNDescription (Some ''GOOGLE'')),
        Rdap (PyStr ''1.1.1.1''), Print (SpoofedUnavailable ''timed out'')]
   \<and> snd (trace_actual_dns rdap_down (init ''Wi-Fi'') foo_example ''3.3.3.3'' (PyStr ''1.1.1.1'')) =
       [Print (TracingActual foo_example),
        Whois foo_example, Print (DomainRegistrar (Some ''Example Registrar'')),
        Print (WhoisUnavailable ''can only join an iterable''),
        Rdap (PyStr ''3.3.3.3''), Print (RealUnavailable ''timed out''),
        Rdap (PyStr ''1.1.1.1''), Print (SpoofedASN (Some ''13335'')),
        Print (SpoofedASNDescription None)]
   \<and> snd (trace_actual_dns registry_up (init ''Wi-Fi'') foo_example ''3.3.3.3'' (PyStr ''1.1.1.1'')) =
       [Print (TracingActual foo_example),
        Whois foo_example, Print (DomainRegistrar (Some ''Example Registrar'')),
        Print (NameServers [''ns1.example.'', ''ns2.example.'']),
        Rdap (PyStr ''3.3.3.3''), Print (RealUnavailable ''timed out''),
        Rdap (PyStr ''1.1.1.1''), Print (SpoofedUnavailable ''timed out'')]
   \<and> Print (NameServers [''ns1.example.'', ''ns2.example.'']) \<in>
        set (snd (trace_actual_dns registry_up (init ''Wi-Fi'') foo_example ''3.3.3.3''
                    (PyStr ''1.1.1.1'')))
   \<and> Print (RealASN (Some ''15169'')) \<in>
        set (snd (trace_actual_dns registry_down (init ''Wi-Fi'') foo_example ''3.3.3.3''
                    (PyStr ''1.1.1.1'')))
   \<and> Print (SpoofedASN (Some ''13335'')) \<in>
        set (snd (trace_actual_dns rdap_down (init ''Wi-Fi'') foo_example ''3.3.3.3''
                    (PyStr ''1.1.1.1'')))"
proof -
  have ns: "Print (NameServers [''ns1.example.'', ''ns2.example.'']) \<in>
        set (snd (trace_actual_dns registry_up (init ''Wi-Fi'') foo_example ''3.3.3.3''
                    (PyStr ''1.1.1.1'')))"
    using attribution_lookups_independent
      [of registry_up "init ''Wi-Fi''" foo_example "''3.3.3.3''" "PyStr ''1.1.1.1''"
          _ _ "[''ns1.example.'', ''ns2.example.'']"]
    by (simp add: constant_services_simps)
  have real: "Print (RealASN (Some ''15169'')) \<in>
        set (snd (trace_actual_dns registry_down (init ''Wi-Fi'') foo_example ''3.3.3.3''
                    (PyStr ''1.1.1.1'')))"
    using attribution_lookups_independent
      [of registry_down "init ''Wi-Fi''" foo_example "''3.3.3.3''" "PyStr ''1.1.1.1''"
          _ _ _ "Some ''15169''"]
    by simp
  have spoofed: "Print (SpoofedASN (Some ''13335'')) \<in>
        set (snd (trace_actual_dns rdap_down (init ''Wi-Fi'') foo_example ''3.3.3.3''
                    (PyStr ''1.1.1.1'')))"
    using attribution_lookups_independent
      [of rdap_down "init ''Wi-Fi''" foo_example "''3.3.3.3''" "PyStr ''1.1.1.1''"
          _ _ _ "Some ''13335''"]
    by simp
  from ns real spoofed show ?thesis
    by (simp add: trace_actual_dns_def constant_services_simps)
qed

subsection \<open>Failed resolutions\<close>

text \<open>
  Claim C8. When the resolver reports that the name does not exist, \<^verbatim>\<open>verify_dns\<close>
  returns \<^verbatim>\<open>None\<close> normally, having printed that the domain does not exist and made no
  attribution lookup; with any other resolver failure it returns \<^verbatim>\<open>None\<close> likewise,
  having printed the error. Whenever the run over the log returns, under any schedule of
  the workers, there is a completed task for every entry of the log, and each is what
  \<^verbatim>\<open>verify_dns\<close> gives for that entry's name alone, whatever the resolver did for the
  others; and the run does return when the workers move one at a time.
\<close>

theorem failed_resolution_excluded:
  "(resolve srv (nameservers self) d = NXDOMAIN \<longrightarrow>
      verify_dns srv self d = (self, None, [Resolve d, Print (DoesNotExist d)]))
   \<and> (resolve srv (nameservers self) d = ResolverError e \<longrightarrow>
      verify_dns srv self d = (self, None, [Resolve d, Print (ErrorResolving d e)]))
   \<and> (\<forall>self' out futures.
        verify_suspicious_responses world sched self = Some (self', out, futures) \<longrightarrow>
          length futures = length (suspicious_responses self) \<and>
          (\<forall>j < length (suspicious_responses self). futures ! j =
             \<lparr>task_domain = fst (suspicious_responses self ! j),
              task_result =
                fst (snd (verify_dns (world j) self (fst (suspicious_responses self ! j)))),
              task_events =
                snd (snd (verify_dns (world j) self (fst (suspicious_responses self ! j))))\<rparr>))
   \<and> verify_suspicious_responses world (one_by_one (length (suspicious_responses self))) self
       \<noteq> None"
proof (intro conjI allI impI)
  assume "resolve srv (nameservers self) d = NXDOMAIN"
  then show "verify_dns srv self d = (self, None, [Resolve d, Print (DoesNotExist d)])"
    by (rule verify_dns_nxdomain)
next
  assume "resolve srv (nameservers self) d = ResolverError e"
  then show "verify_dns srv self d = (self, None, [Resolve d, Print (ErrorResolving d e)])"
    by (rule verify_dns_error)
next
  show "verify_suspicious_responses world (one_by_one (length (suspicious_responses self))) self
       \<noteq> None"
    by (rule one_by_one_returns)
next
  fix self' out futures j
  assume ret: "verify_suspicious_responses world sched self = Some (self', out, futures)"
  show "length futures = length (suspicious_responses self)"
    by (rule returned_futures [OF ret])
  assume "j < length (suspicious_responses self)"
  with returned_futures(6) [OF ret]
  show "futures ! j =
             \<lparr>task_domain = fst (suspicious_responses self ! j),
              task_result =
                fst (snd (verify_dns (world j) self (fst (suspicious_responses self ! j)))),
              task_events =
                snd (snd (verify_dns (world j) self (fst (suspicious_responses self ! j))))\<rparr>"
    by blast
qed

text \<open>
  Two suspected names, two workers at once; the resolver fails for the first name and
  answers for the second, and the second task ends first.
\<close>

theorem failed_resolution_excluded_witness:
  "resolve (first_fails NXDOMAIN 0) (nameservers (session ''Wi-Fi'' two_names)) foo_example = NXDOMAIN
   \<and> verify_dns (first_fails NXDOMAIN 0) (session ''Wi-Fi'' two_names) foo_example =
       (session ''Wi-Fi'' two_names, None, [Resolve foo_example, Print (DoesNotExist foo_example)])
   \<and> resolve (first_fails (ResolverError ''timed out'') 0)
        (nameservers (session ''Wi-Fi'' two_names)) foo_example = ResolverError ''timed out''
   \<and> verify_dns (first_fails (ResolverError ''timed out'') 0) (session ''Wi-Fi'' two_names)
        foo_example =
       (session ''Wi-Fi'' two_names, None,
        [Resolve foo_example, Print (ErrorResolving foo_example ''timed out'')])
   \<and> (1::nat) < length (suspicious_responses (session ''Wi-Fi'' two_names))
   \<and> verify_suspicious_responses (first_fails NXDOMAIN) [Start, Start, Finish 1, Finish 0]
        (session ''Wi-Fi'' two_names) =
       Some (session ''Wi-Fi'' two_names, [VerifyingSuspicious],
         [\<lparr>task_domain = foo_example, task_result = None,
            task_events = [Resolve foo_example, Print (DoesNotExist foo_example)]\<rparr>,
          \<lparr>task_domain = bar_example, task_result = Some ''5.5.5.5'',
            task_events = [Resolve bar_example]\<rparr>])
   \<and> verify_suspicious_responses (first_fails NXDOMAIN)
        (one_by_one (length (suspicious_responses (session ''Wi-Fi'' two_names))))
        (session ''Wi-Fi'' two_names) \<noteq> None"
proof -
  note nx = failed_resolution_excluded
      [of "first_fails NXDOMAIN 0" "session ''Wi-Fi'' two_names" foo_example "''timed out''"
          "first_fails NXDOMAIN" "[Start, Start, Finish 1, Finish 0]"]
  note er = failed_resolution_excluded
      [of "first_fails (ResolverError ''timed out'') 0" "session ''Wi-Fi'' two_names" foo_example
          "''timed out''" "first_fails NXDOMAIN" "[Start, Start, Finish 1, Finish 0]"]
  have r0: "resolve (first_fails NXDOMAIN 0) (nameservers (session ''Wi-Fi'' two_names))
      foo_example = NXDOMAIN"
    by (simp add: constant_services_simps)
  have r1: "resolve (first_fails (ResolverError ''timed out'') 0)
      (nameservers (session ''Wi-Fi'' two_names)) foo_example = ResolverError ''timed out''"
    by (simp add: constant_services_simps)
  from nx r0 have v0: "verify_dns (first_fails NXDOMAIN 0) (session ''Wi-Fi'' two_names)
      foo_example =
       (session ''Wi-Fi'' two_names, None, [Resolve foo_example, Print (DoesNotExist foo_example)])"
    by blast
  from er r1 have v1: "verify_dns (first_fails (ResolverError ''timed out'') 0)
       (session ''Wi-Fi'' two_names) foo_example =
       (session ''Wi-Fi'' two_names, None,
        [Resolve foo_example, Print (ErrorResolving foo_example ''timed out'')])"
    by blast
  have len: "(1::nat) < length (suspicious_responses (session ''Wi-Fi'' two_names))"
    by (simp add: two_names_log)
  from nx have ret: "verify_suspicious_responses (first_fails NXDOMAIN)
        (one_by_one (length (suspicious_responses (session ''Wi-Fi'' two_names))))
        (session ''Wi-Fi'' two_names) \<noteq> None"
    by blast
  from r0 v0 r1 v1 len two_names_run ret show ?thesis
    by (intro conjI)
qed

subsection \<open>One task for each suspicious response\<close>

text \<open>
  Claim C5 as stated: one verification task for each distinct suspected name. The tasks
  are built by a comprehension over the list of suspicious responses, which holds one
  entry for each divergent answer. Three answers for one name, the last two divergent,
  give two entries, and two tasks are submitted for the one name.
\<close>

theorem one_task_per_name_counterexample:
  "remdups (map fst (suspicious_responses (session ''Wi-Fi'' three_answers))) = [foo_example]
   \<and> map snd (queued (pool_after (every_task (unreachable ''1.1.1.1'')) []
        (session ''Wi-Fi'' three_answers))) = [foo_example, foo_example]"
  by (simp add: three_answers_tasks session_log_triple)

text \<open>
  Claim C5, amended. The verification phase submits one task for each entry of the list
  of suspicious responses, in the order of the list (a name with several entries is
  verified once for each). Under every schedule of the workers, at most five tasks are
  being executed at any moment. The call returns only when no task is queued or being
  executed, and then it holds a completed task for every entry, with what \<^verbatim>\<open>verify_dns\<close>
  returned for that entry's name; and it does return when the workers move one at a time.
\<close>

theorem one_task_per_record:
  "queued (pool_after world [] self) = enumerate 0 (map fst (suspicious_responses self))
   \<and> length (running (pool_after world sched self)) \<le> 5
   \<and> (\<forall>self' out futures.
        verify_suspicious_responses world sched self = Some (self', out, futures) \<longrightarrow>
          queued (pool_after world sched self) = [] \<and>
          running (pool_after world sched self) = [] \<and>
          length futures = length (suspicious_responses self) \<and>
          (\<forall>j < length (suspicious_responses self). futures ! j =
             \<lparr>task_domain = fst (suspicious_responses self ! j),
              task_result =
                fst (snd (verify_dns (world j) self (fst (suspicious_responses self ! j)))),
              task_events =
                snd (snd (verify_dns (world j) self (fst (suspicious_responses self ! j))))\<rparr>))
   \<and> verify_suspicious_responses world (one_by_one (length (suspicious_responses self))) self
       \<noteq> None"
proof (intro conjI allI impI)
  show "queued (pool_after world [] self) = enumerate 0 (map fst (suspicious_responses self))"
    by (rule submitted_tasks)
  show "length (running (pool_after world sched self)) \<le> 5"
    by (rule running_bounded)
  show "verify_suspicious_responses world (one_by_one (length (suspicious_responses self))) self
       \<noteq> None"
    by (rule one_by_one_returns)
next
  fix self' out futures j
  assume ret: "verify_suspicious_responses world sched self = Some (self', out, futures)"
  show "queued (pool_after world sched self) = []"
    and "running (pool_after world sched self) = []"
    and "length futures = length (suspicious_responses self)"
    by (rule returned_futures [OF ret])+
  assume "j < length (suspicious_responses self)"
  with returned_futures(6) [OF ret]
  show "futures ! j =
             \<lparr>task_domain = fst (suspicious_responses self ! j),
              task_result =
                fst (snd (verify_dns (world j) self (fst (suspicious_responses self ! j)))),
              task_events =
                snd (snd (verify_dns (world j) self (fst (suspicious_responses self ! j))))\<rparr>"
    by blast
qed

text \<open>
  The session of three answers: both tasks are executed at once and the second ends
  first. And a session with six entries: after six attempts to start a task five are
  being executed and the sixth waits.
\<close>

theorem one_task_per_record_witness:
  "verify_suspicious_responses (every_task (unreachable ''1.1.1.1''))
      [Start, Start, Finish 1, Finish 0] (session ''Wi-Fi'' three_answers) =
     Some (session ''Wi-Fi'' three_answers, [VerifyingSuspicious],
       [\<lparr>task_domain = foo_example, task_result = Some ''1.1.1.1'',
          task_events = [Resolve foo_example]\<rparr>,
        \<lparr>task_domain = foo_example, task_result = Some ''1.1.1.1'',
          task_events = [Resolve foo_example]\<rparr>])
   \<and> running (pool_after (every_task (unreachable ''1.1.1.1'')) [Start, Start]
        (session ''Wi-Fi'' three_answers)) = [(0, foo_example), (1, foo_example)]
   \<and> queued (pool_after (every_task (unreachable ''1.1.1.1'')) [Start, Start, Finish 1, Finish 0]
        (session ''Wi-Fi'' three_answers)) = []
   \<and> running (pool_after (every_task (unreachable ''1.1.1.1'')) [Start, Start, Finish 1, Finish 0]
        (session ''Wi-Fi'' three_answers)) = []
   \<and> (1::nat) < length (suspicious_responses (session ''Wi-Fi'' three_answers))
   \<and> length (running (pool_after (every_task (unreachable ''1.1.1.1'')) (replicate 6 Start)
        (session ''Wi-Fi'' six_divergent))) = 5
   \<and> map fst (queued (pool_after (every_task (unreachable ''1.1.1.1'')) (replicate 6 Start)
        (session ''Wi-Fi'' six_divergent))) = [5]"
proof -
  note run = three_answers_run
  note six = six_divergent_starts [of "every_task (unreachable ''1.1.1.1'')"]
  from one_task_per_record
    [of "every_task (unreachable ''1.1.1.1'')" "session ''Wi-Fi'' three_answers"
        "[Start, Start, Finish 1, Finish 0]"] run
  have "queued (pool_after (every_task (unreachable ''1.1.1.1'')) [Start, Start, Finish 1, Finish 0]
        (session ''Wi-Fi'' three_answers)) = []"
    and "running (pool_after (every_task (unreachable ''1.1.1.1'')) [Start, Start, Finish 1, Finish 0]
        (session ''Wi-Fi'' three_answers)) = []"
    by blast+
  moreover have "(1::nat) < length (suspicious_responses (session ''Wi-Fi'' three_answers))"
    by (simp add: session_log_triple)
  ultimately show ?thesis
    using run three_answers_both_running six [THEN conjunct1] six [THEN conjunct2]
    by (intro conjI)
qed

subsection \<open>The cache during verification\<close>

text \<open>
  Claim C6. No operation of the verification phase changes the cache: after
  \<^verbatim>\<open>verify_dns\<close>, after \<^verbatim>\<open>trace_actual_dns\<close>, at every moment of the run over the log
  under every schedule of the workers, and in the object the run returns, for every
  behaviour of the external services (an answer, a name that does not exist, any other
  failure), the cache is the one before the call.
\<close>

theorem verification_preserves_cache:
  "cache (fst (verify_dns srv self d)) = cache self
   \<and> cache (fst (trace_actual_dns srv self d real spoofed)) = cache self
   \<and> cache (owner (pool_after world sched self)) = cache self
   \<and> (\<forall>self' out futures.
        verify_suspicious_responses world sched self = Some (self', out, futures) \<longrightarrow>
          cache self' = cache self)"
proof (intro conjI allI impI)
  show "cache (fst (verify_dns srv self d)) = cache self"
    by (simp add: verify_dns_frame)
  show "cache (fst (trace_actual_dns srv self d real spoofed)) = cache self"
    by (simp add: trace_actual_dns_frame)
  show "cache (owner (pool_after world sched self)) = cache self"
    by (simp add: owner_after)
next
  fix self' out futures
  assume "verify_suspicious_responses world sched self = Some (self', out, futures)"
  then have "self' = self" by (rule returned_futures)
  then show "cache self' = cache self" by simp
qed

text \<open>
  The cached address of the session of two answers, after a confirmed spoof, and of the
  session of three answers after its run.
\<close>

theorem verification_preserves_cache_witness:
  "cache (fst (verify_dns (unreachable ''3.3.3.3'') (session ''Wi-Fi'' two_answers) foo_example))
      foo_example = Some (PyStr ''1.1.1.1'')
   \<and> cache (owner (pool_after (every_task (unreachable ''3.3.3.3'')) [Start, Finish 0]
        (session ''Wi-Fi'' two_answers))) foo_example = Some (PyStr ''1.1.1.1'')
   \<and> verify_suspicious_responses (every_task (unreachable ''1.1.1.1''))
        [Start, Start, Finish 1, Finish 0] (session ''Wi-Fi'' three_answers) \<noteq> None
   \<and> cache (session ''Wi-Fi'' three_answers) foo_example = Some (PyStr ''1.1.1.1'')"
  using verification_preserves_cache
      [of "unreachable ''3.3.3.3''" "session ''Wi-Fi'' two_answers" foo_example "''3.3.3.3''"
          "PyStr ''1.1.1.1''" "every_task (unreachable ''3.3.3.3'')" "[Start, Finish 0]"]
    verification_preserves_cache
      [of "unreachable ''3.3.3.3''" "session ''Wi-Fi'' three_answers" foo_example "''3.3.3.3''"
          "PyStr ''1.1.1.1''" "every_task (unreachable ''1.1.1.1'')"
          "[Start, Start, Finish 1, Finish 0]"]
    three_answers_run
  by (simp add: session_cache)

end
